theory Spec2Isabelle
  imports Complex_Main
begin

section \<open>Tensors\<close>

text \<open>
  The recorder of \<^verbatim>\<open>src/interfaces/PathRecorder.py\<close> keeps its state in dense torch
  tensors. Entries are finite and modelled as exact rationals; the one rounding effect
  that decides a test of the code, the underflow of the product of line 83, is modelled
  at that product. A tensor of shape \<open>(b)\<close> is a list
  of \<open>b\<close> entries, a tensor of shape \<open>(n, b)\<close> a list of \<open>n\<close> rows and a tensor of
  shape \<open>(n, m, b)\<close> a list of \<open>n\<close> matrices; the unsized \<^verbatim>\<open>torch.Tensor()\<close> is the
  empty list. A dense tensor has rows of one common shape, so the operations below
  combine rows position by position.

  The decision handed to \<^verbatim>\<open>add_sampling\<close> may have any shape; it is kept as its shape
  and its entries in row-major order.
\<close>

type_synonym vec = "rat list"
type_synonym mat = "rat list list"
type_synonym cube = "rat list list list"

datatype tensor = Tensor (shape: "nat list") (data: "rat list")

definition wf_tensor :: "tensor \<Rightarrow> bool" where
  "wf_tensor t \<longleftrightarrow> length (data t) = prod_list (shape t)"

definition squeeze :: "tensor \<Rightarrow> tensor" where
  "squeeze t = Tensor (filter (\<lambda>k. k \<noteq> 1) (shape t)) (data t)"

definition unsqueeze0 :: "tensor \<Rightarrow> tensor" where
  "unsqueeze0 t = Tensor (1 # shape t) (data t)"

definition dim :: "tensor \<Rightarrow> nat" where
  "dim t = length (shape t)"

definition zeros2 :: "nat \<Rightarrow> nat \<Rightarrow> mat" where
  "zeros2 n b = replicate n (replicate b 0)"

definition zeros3 :: "nat \<Rightarrow> nat \<Rightarrow> nat \<Rightarrow> cube" where
  "zeros3 n m b = replicate n (zeros2 m b)"

definition numel2 :: "mat \<Rightarrow> nat" where
  "numel2 m = sum_list (map length m)"

definition numel3 :: "cube \<Rightarrow> nat" where
  "numel3 a = sum_list (map numel2 a)"

text \<open>\<^verbatim>\<open>(x != 0).float()\<close> on one entry.\<close>

definition float_ne0 :: "rat \<Rightarrow> rat" where
  "float_ne0 x = (if x \<noteq> 0 then 1 else 0)"

text \<open>
  \<^verbatim>\<open>((h * x) != 0).float()\<close> on one entry, for the float32 product of line 83. Entries
  are finite; rounding is left out of this model except where it decides a zero test:
  a product of magnitude at most \<open>1 / 2 ^ 150\<close> underflows to zero (the smallest
  subnormal is \<open>1 / 2 ^ 149\<close>, and the tie at half of it goes to the even neighbour,
  zero), any larger one is not zero. The bound is written out as a numeral;
  \<open>underflow_power\<close> below gives it as the power.
\<close>

definition underflow :: rat where
  "underflow = 1 / 1427247692705959881058285969449495136382746624"

definition product_ne0 :: "rat \<Rightarrow> rat \<Rightarrow> rat" where
  "product_ne0 h x = (if \<bar>h * x\<bar> \<le> underflow then 0 else 1)"

text \<open>
  \<^verbatim>\<open>mean\<close> over the batch dimension. For an empty batch torch yields NaN, which has no
  rational counterpart: an empty batch is outside this model.
\<close>

definition mean :: "vec \<Rightarrow> rat" where
  "mean v = sum_list v / of_nat (length v)"

text \<open>
  Broadcasting a flat vector against a row of width \<open>w\<close>: the widths agree, or the
  vector has one entry, which is repeated; anything else is torch's shape error.
\<close>

definition broadcast :: "nat \<Rightarrow> vec \<Rightarrow> vec option" where
  "broadcast w v =
     (if length v = w then Some v
      else if length v = 1 then Some (replicate w (hd v))
      else None)"

definition size1 :: "mat \<Rightarrow> nat" where
  "size1 m = (case m of [] \<Rightarrow> 0 | r # _ \<Rightarrow> length r)"

definition column :: "mat \<Rightarrow> nat \<Rightarrow> vec" where
  "column m i = map (\<lambda>r. r ! i) m"

definition t_mat :: "mat \<Rightarrow> mat" where
  "t_mat m = map (column m) [0..<size1 m]"

section \<open>Errors and outcomes\<close>

text \<open>
  \<open>NotInitialized\<close> is the \<^verbatim>\<open>RuntimeError\<close> raised at line 57, \<open>InvalidShape\<close> the
  \<^verbatim>\<open>ValueError\<close> of line 61, \<open>ShapeMismatch\<close> the \<^verbatim>\<open>RuntimeError\<close> torch raises
  when two shapes cannot be broadcast, \<open>ReshapeError\<close> the \<^verbatim>\<open>RuntimeError\<close> torch raises
  for \<^verbatim>\<open>view(-1, 0)\<close>, where the size \<^verbatim>\<open>-1\<close> stands for cannot be told; the others are
  the Python exceptions of the same name. Every operation returns its outcome together with the recorder as the call left
  it, so that what a raising call has already written stays visible.
\<close>

datatype error =
    NotInitialized | InvalidShape | KeyError | IndexError | TypeError
  | AttributeError | AssertionError | ShapeMismatch | ReshapeError | ZeroDivisionError

datatype 'a outcome = Returned 'a | Raised error

section \<open>The recorder\<close>

text \<open>
  The graph collaborator supplies its nodes in topological order and the predecessors
  of each node.
\<close>

record 'n digraph =
  topological_sort :: "'n list"
  predecessors :: "'n \<Rightarrow> 'n list"

record 'n PathRecorder =
  graph :: "'n digraph"
  default_out :: "'n option"
  n_nodes :: nat
  node_index :: "'n \<Rightarrow> nat option"
  rev_node_index :: "'n list"
  global_sampling :: "vec option"
  n_samplings :: int
  active :: "cube option"
  sampling :: "mat option"

text \<open>
  \<^verbatim>\<open>__init__\<close>: the loop over \<^verbatim>\<open>enumerate(topological_sort(graph))\<close> stores every
  node under its position; it fills slot \<open>i\<close> of \<^verbatim>\<open>rev_node_index\<close> with the \<open>i\<close>-th
  node, for every slot, which leaves the enumeration itself.
\<close>

definition init :: "'n digraph \<Rightarrow> 'n option \<Rightarrow> 'n PathRecorder" where
  "init g dout =
     \<lparr> graph = g,
       default_out = dout,
       n_nodes = length (topological_sort g),
       node_index = fold (\<lambda>(i, node) m. m(node \<mapsto> i))
                         (enumerate 0 (topological_sort g)) Map.empty,
       rev_node_index = topological_sort g,
       global_sampling = None,
       n_samplings = 0,
       active = None,
       sampling = None \<rparr>"

subsection \<open>Running statistics\<close>

text \<open>
  \<^verbatim>\<open>update_global_sampling\<close>. The quotient \<^verbatim>\<open>1 / self.n_samplings\<close> is the true
  division of Python 3. The batch means are a fresh tensor, so the estimate shares no
  storage with the active tensor. Estimate and means have one entry per node. For a
  usage tensor of one row, \<^verbatim>\<open>squeeze\<close> leaves a tensor without dimension, which is kept
  as the list of its one entry; in line 43 it is broadcast against the estimate, as
  \<open>broadcast\<close> does. Means of any other length must have the length of the estimate.
\<close>

definition update_global_sampling ::
  "'n PathRecorder \<Rightarrow> mat \<Rightarrow> unit outcome \<times> 'n PathRecorder" where
  "update_global_sampling s used_nodes =
     (let s1 = s\<lparr>n_samplings := n_samplings s + 1\<rparr>;
          mean_sampling = map mean used_nodes
      in case global_sampling s1 of
           None \<Rightarrow> (Returned (), s1\<lparr>global_sampling := Some mean_sampling\<rparr>)
         | Some g \<Rightarrow>
             if n_samplings s1 = 0 then (Raised ZeroDivisionError, s1)
             else
               (case broadcast (length g) mean_sampling of
                  None \<Rightarrow> (Raised ShapeMismatch, s1)
                | Some bm \<Rightarrow>
                    (Returned (),
                     s1\<lparr>global_sampling :=
                          Some (map2 (\<lambda>gj mj. gj + (1 / of_int (n_samplings s1)) * (mj - gj))
                                  g bm)\<rparr>)))"

subsection \<open>Read accessors\<close>

definition get_sampled_architectures ::
  "'n PathRecorder \<Rightarrow> mat option outcome \<times> 'n PathRecorder" where
  "get_sampled_architectures s = (Returned (sampling s), s)"

definition get_pruned_architecture ::
  "'n PathRecorder \<Rightarrow> 'n \<Rightarrow> mat outcome \<times> 'n PathRecorder" where
  "get_pruned_architecture s out_node =
     (case node_index s out_node of
        None \<Rightarrow> (Raised KeyError, s)
      | Some i \<Rightarrow>
          (case active s of
             None \<Rightarrow> (Raised TypeError, s)
           | Some a \<Rightarrow>
               if i < length a then (Returned (a ! i), s) else (Raised IndexError, s)))"

definition get_architectures ::
  "'n PathRecorder \<Rightarrow> 'n \<Rightarrow> (mat option \<times> mat) outcome \<times> 'n PathRecorder" where
  "get_architectures s out_node =
     (case get_sampled_architectures s of
        (Raised e, s1) \<Rightarrow> (Raised e, s1)
      | (Returned sampled, s1) \<Rightarrow>
          (case get_pruned_architecture s1 out_node of
             (Raised e, s2) \<Rightarrow> (Raised e, s2)
           | (Returned pruned, s2) \<Rightarrow> (Returned (sampled, pruned), s2)))"

subsection \<open>Starting an iteration\<close>

definition new_iteration :: "'n PathRecorder \<Rightarrow> unit outcome \<times> 'n PathRecorder" where
  "new_iteration s =
     (case (case default_out s of
              None \<Rightarrow> (Returned (), s)
            | Some out \<Rightarrow>
                if active s \<noteq> None then
                  (case get_pruned_architecture s out of
                     (Raised e, s1) \<Rightarrow> (Raised e, s1)
                   | (Returned pruned, s1) \<Rightarrow> update_global_sampling s1 pruned)
                else (Returned (), s)) of
        (Raised e, s2) \<Rightarrow> (Raised e, s2)
      | (Returned u, s2) \<Rightarrow> (Returned (), s2\<lparr>active := Some [], sampling := Some []\<rparr>))"

subsection \<open>Recording a decision\<close>

text \<open>
  \<^verbatim>\<open>incoming = self.active[node_ind]\<close> is a view: every in-place operation on
  \<^verbatim>\<open>incoming\<close> writes row \<open>node_ind\<close> of the active tensor. The steps below therefore
  pass the whole active tensor along and read \<^verbatim>\<open>incoming\<close> as its row \<open>node_ind\<close>.
\<close>

text \<open>Lines 65 to 67: both tensors are sized when both are empty.\<close>

definition allocate :: "'n PathRecorder \<Rightarrow> cube \<Rightarrow> nat \<Rightarrow> unit outcome \<times> 'n PathRecorder" where
  "allocate s a batch_size =
     (if numel3 a = 0 then
        (case sampling s of
           None \<Rightarrow> (Raised AttributeError, s)
         | Some m \<Rightarrow>
             if numel2 m = 0 then
               (Returned (),
                s\<lparr>active := Some (zeros3 (n_nodes s) (n_nodes s) batch_size),
                  sampling := Some (zeros2 (n_nodes s) batch_size)\<rparr>)
             else (Returned (), s))
      else (Returned (), s))"

text \<open>Line 75: \<^verbatim>\<open>incoming[node_ind] += sampling\<close>.\<close>

definition add_own :: "nat \<Rightarrow> vec \<Rightarrow> cube \<Rightarrow> unit outcome \<times> cube" where
  "add_own node_ind v a =
     (let incoming = a ! node_ind in
      if \<not> node_ind < length incoming then (Raised IndexError, a)
      else (case broadcast (length (incoming ! node_ind)) v of
              None \<Rightarrow> (Raised ShapeMismatch, a)
            | Some bv \<Rightarrow>
                (Returned (),
                 a[node_ind := incoming[node_ind := map2 (+) (incoming ! node_ind) bv]])))"

text \<open>Lines 77 and 78: the rows of the predecessors are added in place, one by one.\<close>

fun add_predecessors ::
  "('n \<Rightarrow> nat option) \<Rightarrow> nat \<Rightarrow> 'n list \<Rightarrow> cube \<Rightarrow> unit outcome \<times> cube" where
  "add_predecessors ni node_ind [] a = (Returned (), a)"
| "add_predecessors ni node_ind (prev # ps) a =
     (case ni prev of
        None \<Rightarrow> (Raised KeyError, a)
      | Some p \<Rightarrow>
          if p < length a then
            add_predecessors ni node_ind ps
              (a[node_ind := map2 (map2 (+)) (a ! node_ind) (a ! p)])
          else (Raised IndexError, a))"

text \<open>
  Lines 80 to 90: the shape assertion, the support test and the masked write. For an
  empty batch the \<^verbatim>\<open>view(-1, batch_size)\<close> of line 82 raises; the maximum over the rows
  needs a row.
\<close>

definition prune :: "nat \<Rightarrow> nat \<Rightarrow> nat \<Rightarrow> vec \<Rightarrow> cube \<Rightarrow> unit outcome \<times> cube" where
  "prune n batch_size node_ind v a =
     (let incoming = a ! node_ind in
      if \<not> (length incoming = n \<and> list_all (\<lambda>r. length r = batch_size) incoming)
      then (Raised AssertionError, a)
      else if batch_size = 0 then (Raised ReshapeError, a)
      else (case incoming of
              [] \<Rightarrow> (Raised IndexError, a)
            | r # rs \<Rightarrow>
                let has_inputs = foldl (map2 max) r rs;
                    has_outputs = map2 product_ne0 has_inputs v
                in if \<not> node_ind < length incoming then (Raised IndexError, a)
                   else
                     let incoming1 = incoming[node_ind := map2 (+) (incoming ! node_ind) v];
                         incoming2 = map (\<lambda>row. map2 (*) row has_outputs) incoming1
                     in (Returned (), a[node_ind := map (map float_ne0) incoming2])))"

text \<open>Lines 74 to 90 on the active tensor: the three steps in turn.\<close>

definition write_row ::
  "('n \<Rightarrow> nat option) \<Rightarrow> 'n list \<Rightarrow> nat \<Rightarrow> nat \<Rightarrow> nat \<Rightarrow> vec \<Rightarrow> cube
     \<Rightarrow> unit outcome \<times> cube" where
  "write_row ni preds n batch_size node_ind v a =
     (case (if preds = [] then add_own node_ind v a else (Returned (), a)) of
        (Raised e, a1) \<Rightarrow> (Raised e, a1)
      | (Returned u1, a1) \<Rightarrow>
          (case add_predecessors ni node_ind preds a1 of
             (Raised e, a2) \<Rightarrow> (Raised e, a2)
           | (Returned u2, a2) \<Rightarrow> prune n batch_size node_ind v a2))"

text \<open>Lines 69 to 90, on the tensors as line 67 left them.\<close>

definition propagate ::
  "'n PathRecorder \<Rightarrow> 'n \<Rightarrow> nat \<Rightarrow> vec \<Rightarrow> unit outcome \<times> 'n PathRecorder" where
  "propagate s node_name batch_size v =
     (case node_index s node_name of
        None \<Rightarrow> (Raised KeyError, s)
      | Some node_ind \<Rightarrow>
          (case active s of
             None \<Rightarrow> (Raised TypeError, s)
           | Some a \<Rightarrow>
               if \<not> node_ind < length a then (Raised IndexError, s)
               else
                 (case sampling s of
                    None \<Rightarrow> (Raised TypeError, s)
                  | Some m \<Rightarrow>
                      if \<not> node_ind < length m then (Raised IndexError, s)
                      else
                        (case broadcast (length (m ! node_ind)) v of
                           None \<Rightarrow> (Raised ShapeMismatch, s)
                         | Some row \<Rightarrow>
                             (case write_row (node_index s) (predecessors (graph s) node_name)
                                     (n_nodes s) batch_size node_ind v a of
                                (r, a1) \<Rightarrow>
                                  (r, s\<lparr>sampling := Some (m[node_ind := row]),
                                         active := Some a1\<rparr>))))))"

definition add_sampling ::
  "'n PathRecorder \<Rightarrow> 'n \<Rightarrow> tensor \<Rightarrow> unit outcome \<times> 'n PathRecorder" where
  "add_sampling s node_name sampling0 =
     (let sq = squeeze sampling0 in
      case active s of
        None \<Rightarrow> (Raised NotInitialized, s)
      | Some a \<Rightarrow>
          let smp = (if dim sq = 0 then unsqueeze0 sq else sq) in
          if dim smp \<noteq> 1 then (Raised InvalidShape, s)
          else
            let batch_size = hd (shape smp) in
            (case allocate s a batch_size of
               (Raised e, s1) \<Rightarrow> (Raised e, s1)
             | (Returned u, s1) \<Rightarrow> propagate s1 node_name batch_size (data smp)))"

subsection \<open>Events\<close>

datatype 'n event = Sampling 'n tensor | NewIteration | OtherEvent

definition new_event :: "'n PathRecorder \<Rightarrow> 'n event \<Rightarrow> unit outcome \<times> 'n PathRecorder" where
  "new_event s e =
     (case e of
        Sampling node v \<Rightarrow> add_sampling s node v
      | NewIteration \<Rightarrow> new_iteration s
      | OtherEvent \<Rightarrow> (Returned (), s))"

subsection \<open>Paths of the sampled architectures\<close>

text \<open>
  \<^verbatim>\<open>[rev_node_index[idx] for idx, used in enumerate(arch) if used == 1]\<close>
\<close>

fun used_names :: "'n list \<Rightarrow> (nat \<times> rat) list \<Rightarrow> 'n list outcome" where
  "used_names names [] = Returned []"
| "used_names names ((idx, used) # xs) =
     (if used = 1 then
        (if idx < length names then
           (case used_names names xs of
              Raised e \<Rightarrow> Raised e
            | Returned ns \<Rightarrow> Returned (names ! idx # ns))
         else Raised IndexError)
      else used_names names xs)"

text \<open>
  \<^verbatim>\<open>dict((rev_node_index[ind], elt) for ind, elt in enumerate(col))\<close>: the dictionary
  is kept as the list of its items in insertion order.
\<close>

fun sampled_items :: "'n list \<Rightarrow> (nat \<times> rat) list \<Rightarrow> ('n \<times> rat) list outcome" where
  "sampled_items names [] = Returned []"
| "sampled_items names ((ind, elt) # xs) =
     (if ind < length names then
        (case sampled_items names xs of
           Raised e \<Rightarrow> Raised e
         | Returned items \<Rightarrow> Returned ((names ! ind, elt) # items))
      else Raised IndexError)"

fun collect :: "('a \<Rightarrow> 'b outcome) \<Rightarrow> 'a list \<Rightarrow> 'b list outcome" where
  "collect f [] = Returned []"
| "collect f (x # xs) =
     (case f x of
        Raised e \<Rightarrow> Raised e
      | Returned y \<Rightarrow>
          (case collect f xs of
             Raised e \<Rightarrow> Raised e
           | Returned ys \<Rightarrow> Returned (y # ys)))"

definition get_used_nodes :: "'n PathRecorder \<Rightarrow> mat \<Rightarrow> 'n list list outcome" where
  "get_used_nodes s architectures =
     collect (\<lambda>arch. used_names (rev_node_index s) (enumerate 0 arch)) architectures"

definition get_graph_paths ::
  "'n PathRecorder \<Rightarrow> 'n \<Rightarrow>
     ('n list list \<times> ('n \<times> rat) list list) outcome \<times> 'n PathRecorder" where
  "get_graph_paths s out_node =
     (case get_architectures s out_node of
        (Raised e, s1) \<Rightarrow> (Raised e, s1)
      | (Returned (sampled_opt, pruned), s1) \<Rightarrow>
          (case collect (\<lambda>i. used_names (rev_node_index s1) (enumerate 0 (column pruned i)))
                  [0..<size1 pruned] of
             Raised e \<Rightarrow> (Raised e, s1)
           | Returned real_paths \<Rightarrow>
               (case get_used_nodes s1 (t_mat pruned) of
                  Raised e \<Rightarrow> (Raised e, s1)
                | Returned res \<Rightarrow>
                    if real_paths \<noteq> res then (Raised AssertionError, s1)
                    else
                      (case sampled_opt of
                         None \<Rightarrow> (Raised AttributeError, s1)
                       | Some sampled \<Rightarrow>
                           (case collect (\<lambda>i. sampled_items (rev_node_index s1)
                                                 (enumerate 0 (column sampled i)))
                                   [0..<size1 sampled] of
                              Raised e \<Rightarrow> (Raised e, s1)
                            | Returned sampling_paths \<Rightarrow>
                                (case update_global_sampling s1 pruned of
                                   (Raised e, s2) \<Rightarrow> (Raised e, s2)
                                 | (Returned u, s2) \<Rightarrow>
                                     (Returned (real_paths, sampling_paths), s2)))))))"

section \<open>Sequences of calls\<close>

text \<open>Successive statistics updates, stopping at the first one that raises.\<close>

fun updates :: "'n PathRecorder \<Rightarrow> mat list \<Rightarrow> unit outcome \<times> 'n PathRecorder" where
  "updates s [] = (Returned (), s)"
| "updates s (u # us) =
     (case update_global_sampling s u of
        (Raised e, s1) \<Rightarrow> (Raised e, s1)
      | (Returned x, s1) \<Rightarrow> updates s1 us)"

text \<open>
  The calls that change a recorder: an event, or a query of the graph paths. \<open>perform\<close>
  tells whether the call returned and gives the recorder it left; \<open>session\<close> is the
  recorder after a list of calls made by a caller who goes on after an exception;
  \<open>all_returned\<close> holds when none of the calls raised.
\<close>

datatype 'n call = Event "'n event" | GraphPaths 'n

fun perform :: "'n PathRecorder \<Rightarrow> 'n call \<Rightarrow> bool \<times> 'n PathRecorder" where
  "perform s (Event e) =
     (case new_event s e of (Returned u, s1) \<Rightarrow> (True, s1) | (Raised x, s1) \<Rightarrow> (False, s1))"
| "perform s (GraphPaths out_node) =
     (case get_graph_paths s out_node of
        (Returned r, s1) \<Rightarrow> (True, s1)
      | (Raised x, s1) \<Rightarrow> (False, s1))"

fun session :: "'n PathRecorder \<Rightarrow> 'n call list \<Rightarrow> 'n PathRecorder" where
  "session s [] = s"
| "session s (c # cs) = session (snd (perform s c)) cs"

fun all_returned :: "'n PathRecorder \<Rightarrow> 'n call list \<Rightarrow> bool" where
  "all_returned s [] = True"
| "all_returned s (c # cs) = (fst (perform s c) \<and> all_returned (snd (perform s c)) cs)"

section \<open>Shapes and masks\<close>

definition shape2 :: "mat \<Rightarrow> nat \<Rightarrow> nat \<Rightarrow> bool" where
  "shape2 m n b \<longleftrightarrow> length m = n \<and> list_all (\<lambda>r. length r = b) m"

definition shape3 :: "cube \<Rightarrow> nat \<Rightarrow> nat \<Rightarrow> nat \<Rightarrow> bool" where
  "shape3 a n m b \<longleftrightarrow> length a = n \<and> list_all (\<lambda>r. shape2 r m b) a"

definition is_mask :: "cube \<Rightarrow> bool" where
  "is_mask a \<longleftrightarrow> list_all (list_all (list_all (\<lambda>x. x = 0 \<or> x = 1))) a"

text \<open>
  An iteration is in progress with batch width \<open>b\<close>: both tensors are set, and they are
  either still unsized, or sized for \<open>b\<close> with a 0/1 active tensor.
\<close>

definition iteration_state :: "'n PathRecorder \<Rightarrow> nat \<Rightarrow> bool" where
  "iteration_state s b =
     (case active s of
        None \<Rightarrow> False
      | Some a \<Rightarrow>
          (case sampling s of
             None \<Rightarrow> False
           | Some m \<Rightarrow>
               (a = [] \<and> m = []) \<or>
               (shape3 a (n_nodes s) (n_nodes s) b \<and> shape2 m (n_nodes s) b \<and> is_mask a)))"

text \<open>The two errors that the guards of lines 57 and 61 raise.\<close>

definition guard_error :: "error \<Rightarrow> bool" where
  "guard_error e \<longleftrightarrow> e = NotInitialized \<or> e = InvalidShape"


text \<open>A node the index knows, whose predecessors the index knows too.\<close>

definition indexed :: "'n PathRecorder \<Rightarrow> 'n \<Rightarrow> bool" where
  "indexed s node = (case node_index s node of None \<Rightarrow> False | Some i \<Rightarrow> i < n_nodes s)"

definition known_node :: "'n PathRecorder \<Rightarrow> 'n \<Rightarrow> bool" where
  "known_node s node \<longleftrightarrow>
     indexed s node \<and> list_all (indexed s) (predecessors (graph s) node)"

text \<open>
  The active row of a node is entirely zero at batch element \<open>k\<close>; a row of a tensor
  that is not sized yet has no entry.
\<close>

definition column_clear :: "'n PathRecorder \<Rightarrow> 'n \<Rightarrow> nat \<Rightarrow> bool" where
  "column_clear s node k =
     (case active s of
        None \<Rightarrow> True
      | Some a \<Rightarrow>
          (case node_index s node of
             None \<Rightarrow> True
           | Some i \<Rightarrow> i < length a \<longrightarrow> list_all (\<lambda>r. r ! k = 0) (a ! i)))"

section \<open>The chain of three nodes\<close>

datatype node3 = A | B | C

definition chain :: "node3 digraph" where
  "chain = \<lparr> topological_sort = [A, B, C],
             predecessors = (\<lambda>v. case v of A \<Rightarrow> [] | B \<Rightarrow> [A] | C \<Rightarrow> [B]) \<rparr>"

text \<open>A flat per-batch decision: the tensor of shape \<open>(b)\<close> with the given entries.\<close>

definition flat :: "vec \<Rightarrow> tensor" where
  "flat v = Tensor [length v] v"

text \<open>The chain recorder right after its first \<^verbatim>\<open>new_iteration\<close>.\<close>

definition chain_started :: "node3 PathRecorder" where
  "chain_started = session (init chain None) [Event NewIteration]"

text \<open>
  The chain recorder after \<open>A\<close> and \<open>B\<close> were recorded on and \<open>A\<close> was then recorded
  again, off, in the same iteration.
\<close>

definition chain_rerecorded :: "node3 PathRecorder" where
  "chain_rerecorded =
     session (init chain None)
       [Event NewIteration, Event (Sampling A (flat [1])), Event (Sampling B (flat [1])),
        Event (Sampling A (flat [0]))]"


text \<open>
  One iteration over the chain: the iteration is started and the three decisions are
  recorded in topological order.
\<close>

definition chain_run :: "node3 option \<Rightarrow> vec \<Rightarrow> vec \<Rightarrow> vec \<Rightarrow> node3 PathRecorder" where
  "chain_run dout x y z =
     session (init chain dout)
       [Event NewIteration, Event (Sampling A (flat x)), Event (Sampling B (flat y)),
        Event (Sampling C (flat z))]"

section \<open>The running mean\<close>

lemma incremental_ratio:
  fixes acc m x :: rat
  assumes "x \<noteq> 0" and "x + 1 \<noteq> 0"
  shows "acc / x + (1 / (x + 1)) * (m - acc / x) = (acc + m) / (x + 1)"
  using assms by (simp add: divide_simps) (simp add: algebra_simps)

lemma incremental_step:
  fixes acc m :: rat
  assumes "0 < t"
  shows "acc / of_nat t + (1 / of_int (int t + 1)) * (m - acc / of_nat t) = (acc + m) / of_nat (Suc t)"
proof -
  have t0: "(of_nat t :: rat) \<noteq> 0" using assms by simp
  have "(0::rat) \<le> of_nat t" by simp
  then have t1: "(of_nat t + 1 :: rat) \<noteq> 0" by linarith
  have "(of_int (int t + 1) :: rat) = of_nat t + 1" by simp
  moreover have "(of_nat (Suc t) :: rat) = of_nat t + 1" by simp
  ultimately show ?thesis using incremental_ratio[OF t0 t1, of acc m] by (simp only:)
qed

lemma update_step:
  assumes g: "global_sampling s = Some (map (\<lambda>j. acc j / of_nat t) [0..<n])"
    and c: "n_samplings s = int t" and t: "0 < t" and u: "length u = n"
  shows "\<exists>s1. update_global_sampling s u = (Returned (), s1) \<and> n_samplings s1 = int (Suc t) \<and>
           global_sampling s1 = Some (map (\<lambda>j. (acc j + mean (u ! j)) / of_nat (Suc t)) [0..<n])"
proof -
  have "map2 (\<lambda>gj mj. gj + (1 / of_int (int t + 1)) * (mj - gj))
          (map (\<lambda>j. acc j / of_nat t) [0..<n]) (map mean u)
        = map (\<lambda>j. (acc j + mean (u ! j)) / of_nat (Suc t)) [0..<n]"
  proof (rule nth_equalityI)
    show "length (map2 (\<lambda>gj mj. gj + (1 / of_int (int t + 1)) * (mj - gj))
          (map (\<lambda>j. acc j / of_nat t) [0..<n]) (map mean u))
        = length (map (\<lambda>j. (acc j + mean (u ! j)) / of_nat (Suc t)) [0..<n])"
      using u by simp
  next
    fix i
    assume "i < length (map2 (\<lambda>gj mj. gj + (1 / of_int (int t + 1)) * (mj - gj))
          (map (\<lambda>j. acc j / of_nat t) [0..<n]) (map mean u))"
    then have i: "i < n" using u by simp
    then have "map2 (\<lambda>gj mj. gj + (1 / of_int (int t + 1)) * (mj - gj))
          (map (\<lambda>j. acc j / of_nat t) [0..<n]) (map mean u) ! i
        = acc i / of_nat t + (1 / of_int (int t + 1)) * (mean (u ! i) - acc i / of_nat t)"
      using u by simp
    also have "\<dots> = (acc i + mean (u ! i)) / of_nat (Suc t)"
      by (rule incremental_step[OF t])
    finally show "map2 (\<lambda>gj mj. gj + (1 / of_int (int t + 1)) * (mj - gj))
          (map (\<lambda>j. acc j / of_nat t) [0..<n]) (map mean u) ! i
        = map (\<lambda>j. (acc j + mean (u ! j)) / of_nat (Suc t)) [0..<n] ! i"
      using i by simp
  qed
  then show ?thesis
    using g c t u by (simp add: update_global_sampling_def Let_def broadcast_def)
qed

lemma updates_from:
  assumes "global_sampling s = Some (map (\<lambda>j. acc j / of_nat t) [0..<n])"
    and "n_samplings s = int t" and "0 < t" and "\<forall>u\<in>set us. length u = n"
  shows "\<exists>s1. updates s us = (Returned (), s1) \<and> n_samplings s1 = int (t + length us) \<and>
           global_sampling s1 =
             Some (map (\<lambda>j. (acc j + (\<Sum>u\<leftarrow>us. mean (u ! j))) / of_nat (t + length us)) [0..<n])"
  using assms
proof (induction us arbitrary: s acc t)
  case Nil
  then show ?case by simp
next
  case (Cons u us)
  from Cons.prems have u: "length u = n" by simp
  from update_step[OF Cons.prems(1) Cons.prems(2) Cons.prems(3) u]
  obtain s1 where s1: "update_global_sampling s u = (Returned (), s1)"
    "n_samplings s1 = int (Suc t)"
    "global_sampling s1 = Some (map (\<lambda>j. (acc j + mean (u ! j)) / of_nat (Suc t)) [0..<n])"
    by blast
  from Cons.prems have rest: "\<forall>u\<in>set us. length u = n" by simp
  from Cons.IH[OF s1(3) s1(2) _ rest]
  obtain s2 where s2: "updates s1 us = (Returned (), s2)"
    "n_samplings s2 = int (Suc t + length us)"
    "global_sampling s2 =
       Some (map (\<lambda>j. (acc j + mean (u ! j) + (\<Sum>u\<leftarrow>us. mean (u ! j))) / of_nat (Suc t + length us)) [0..<n])"
    by auto
  show ?case using s1(1) s2 by (simp add: add.assoc)
qed

text \<open>
  Claim C1. Starting from a recorder that has made no statistics update, after \<open>t \<ge> 1\<close>
  updates with usage tensors \<open>u\<^sub>1, \<dots>, u\<^sub>t\<close> of \<open>n\<close> rows each, all updates have
  returned, the counter is \<open>t\<close>, and the global sampling estimate is, for every node \<open>j\<close>,
  the arithmetic mean of the batch means \<open>mean (u\<^sub>1 ! j), \<dots>, mean (u\<^sub>t ! j)\<close>.
\<close>

theorem running_mean:
  assumes "global_sampling s = None" and "n_samplings s = 0"
    and "us \<noteq> []" and "\<forall>u\<in>set us. length u = n"
  shows "\<exists>s1. updates s us = (Returned (), s1) \<and> n_samplings s1 = int (length us) \<and>
           global_sampling s1 =
             Some (map (\<lambda>j. (\<Sum>u\<leftarrow>us. mean (u ! j)) / of_nat (length us)) [0..<n])"
proof -
  from assms(3) obtain u us1 where us: "us = u # us1" by (cases us) auto
  with assms(4) have u: "length u = n" and rest: "\<forall>u\<in>set us1. length u = n" by simp_all
  define s0 where "s0 = s\<lparr>n_samplings := 1, global_sampling := Some (map mean u)\<rparr>"
  have first: "update_global_sampling s u = (Returned (), s0)"
    using assms(1,2) by (simp add: update_global_sampling_def Let_def s0_def)
  have "map mean u = map (\<lambda>j. mean (u ! j) / of_nat 1) [0..<n]"
    using u by (intro nth_equalityI) simp_all
  then have g0: "global_sampling s0 = Some (map (\<lambda>j. mean (u ! j) / of_nat 1) [0..<n])"
    by (simp add: s0_def)
  have c0: "n_samplings s0 = int 1" by (simp add: s0_def)
  from updates_from[OF g0 c0 _ rest]
  obtain s1 where "updates s0 us1 = (Returned (), s1)"
    "n_samplings s1 = int (1 + length us1)"
    "global_sampling s1 =
       Some (map (\<lambda>j. (mean (u ! j) + (\<Sum>u\<leftarrow>us1. mean (u ! j))) / of_nat (1 + length us1)) [0..<n])"
    by auto
  then show ?thesis using first us by simp
qed

theorem running_mean_witness:
  "\<exists>s1. updates (init chain None) [[[1, 0], [1, 1], [0, 0]], [[0, 0], [1, 0], [1, 1]]]
           = (Returned (), s1) \<and>
      n_samplings s1 = 2 \<and> global_sampling s1 = Some [1 / 4, 3 / 4, 1 / 2]"
  using running_mean[of "init chain None"
      "[[[1, 0], [1, 1], [0, 0]], [[0, 0], [1, 0], [1, 1]]]" 3]
  by (simp add: init_def mean_def update_global_sampling_def Let_def broadcast_def)

section \<open>Read accessors\<close>

lemma get_pruned_state: "get_pruned_architecture s out_node = (r, s1) \<Longrightarrow> s1 = s"
  by (auto simp: get_pruned_architecture_def split: option.splits if_splits)

text \<open>
  Claim C9. \<^verbatim>\<open>get_pruned_architecture\<close> and \<^verbatim>\<open>get_sampled_architectures\<close> leave the
  recorder as it was, and a second call on the recorder the first call left has the same
  outcome as the first, whether that is a result or an exception.
\<close>

theorem requery_idempotent:
  "snd (get_pruned_architecture s out_node) = s \<and>
   get_pruned_architecture (snd (get_pruned_architecture s out_node)) out_node
     = get_pruned_architecture s out_node \<and>
   snd (get_sampled_architectures s) = s \<and>
   get_sampled_architectures (snd (get_sampled_architectures s)) = get_sampled_architectures s"
proof -
  have p: "snd (get_pruned_architecture s out_node) = s"
    by (simp add: get_pruned_architecture_def split: option.splits)
  have q: "snd (get_sampled_architectures s) = s"
    by (simp add: get_sampled_architectures_def)
  show ?thesis by (simp add: p q)
qed

section \<open>Graph paths\<close>






section \<open>The chain, every node on\<close>

text \<open>
  Claim C8. On the chain \<open>A \<rightarrow> B \<rightarrow> C\<close> with batch width one, after the iteration is
  started and the decisions \<open>[1]\<close> for \<open>A\<close>, \<open>B\<close> and \<open>C\<close> are recorded in this order (all
  four calls return), the pruned architecture of \<open>C\<close> is one for every node and the
  graph paths of \<open>C\<close> are the one path \<open>[A, B, C]\<close> with the sampled values
  \<open>A: 1, B: 1, C: 1\<close>.
\<close>

theorem chain_all_on:
  "all_returned (init chain (Some C))
     [Event NewIteration, Event (Sampling A (flat [1])), Event (Sampling B (flat [1])),
      Event (Sampling C (flat [1]))] \<and>
   fst (get_pruned_architecture (chain_run (Some C) [1] [1] [1]) C) = Returned [[1], [1], [1]] \<and>
   fst (get_graph_paths (chain_run (Some C) [1] [1] [1]) C)
     = Returned ([[A, B, C]], [[(A, 1), (B, 1), (C, 1)]])"
  by code_simp

section \<open>Starting an iteration twice\<close>

text \<open>
  Claim C4. The claim lets \<^verbatim>\<open>new_iteration\<close> skip the statistics update and reset the
  tensors when the previous iteration recorded no decision. The guard of line 46 only
  asks whether the active tensor is set: on a recorder with a default output node, the
  first call returns, and a second call right after it indexes the unsized tensor and
  raises \<^verbatim>\<open>IndexError\<close>.
\<close>

theorem new_iteration_twice_raises:
  "fst (new_iteration (init chain (Some C))) = Returned () \<and>
   fst (new_iteration (snd (new_iteration (init chain (Some C))))) = Raised IndexError"
  by code_simp

section \<open>Recording before the first iteration\<close>

subsection \<open>Which rows a step writes\<close>

lemma add_own_rows:
  assumes "add_own i v a = (r, a1)"
  shows "length a1 = length a \<and> (\<forall>j. j \<noteq> i \<longrightarrow> a1 ! j = a ! j)"
  using assms by (auto simp: add_own_def Let_def split: if_splits option.splits)

lemma add_predecessors_rows:
  assumes "add_predecessors ni i ps a = (r, a1)"
  shows "length a1 = length a \<and> (\<forall>j. j \<noteq> i \<longrightarrow> a1 ! j = a ! j)"
  using assms
proof (induction ps arbitrary: a)
  case Nil
  then show ?case by simp
next
  case (Cons p ps)
  show ?case
  proof (cases "ni p")
    case None
    with Cons.prems show ?thesis by simp
  next
    case (Some k)
    show ?thesis
    proof (cases "k < length a")
      case True
      with Cons.prems Some
      have "add_predecessors ni i ps (a[i := map2 (map2 (+)) (a ! i) (a ! k)]) = (r, a1)"
        by simp
      from Cons.IH[OF this] show ?thesis by simp
    next
      case False
      with Cons.prems Some show ?thesis by simp
    qed
  qed
qed

lemma prune_rows:
  assumes "prune n b i v a = (r, a1)"
  shows "length a1 = length a \<and> (\<forall>j. j \<noteq> i \<longrightarrow> a1 ! j = a ! j)"
  using assms by (auto simp: prune_def Let_def split: if_splits list.splits)


subsection \<open>Errors of the steps\<close>

lemma add_own_error: "guard_error e \<Longrightarrow> fst (add_own i v a) \<noteq> Raised e"
  by (auto simp: add_own_def Let_def guard_error_def split: option.splits)

lemma add_predecessors_error:
  "guard_error e \<Longrightarrow> fst (add_predecessors ni i ps a) \<noteq> Raised e"
  by (induction ps arbitrary: a) (auto simp: guard_error_def split: option.splits)

lemma prune_error: "guard_error e \<Longrightarrow> fst (prune n b i v a) \<noteq> Raised e"
  by (auto simp: prune_def Let_def guard_error_def split: list.splits)

lemma allocate_error: "guard_error e \<Longrightarrow> fst (allocate s a b) \<noteq> Raised e"
  by (auto simp: allocate_def guard_error_def split: option.splits)

lemma write_row_error:
  assumes "guard_error e"
  shows "fst (write_row ni preds n b i v a) \<noteq> Raised e"
proof -
  obtain r1 a1 where s1: "(if preds = [] then add_own i v a else (Returned (), a)) = (r1, a1)"
    by (metis surj_pair)
  have r1: "r1 \<noteq> Raised e"
    using s1 add_own_error[OF assms, of i v a] by (auto split: if_splits)
  obtain r2 a2 where s2: "add_predecessors ni i preds a1 = (r2, a2)" by (metis surj_pair)
  have r2: "r2 \<noteq> Raised e"
    using s2 add_predecessors_error[OF assms, of ni i preds a1] by auto
  show ?thesis
    using r1 r2 prune_error[OF assms, of n b i v a2]
    by (auto simp: write_row_def s1 s2 split: outcome.splits)
qed

lemma write_row_error_pair:
  "guard_error e \<Longrightarrow> write_row ni preds n b i v a = (r, a1) \<Longrightarrow> r \<noteq> Raised e"
  using write_row_error[of e ni preds n b i v a] by simp

lemma propagate_error:
  assumes "guard_error e"
  shows "fst (propagate s node b v) \<noteq> Raised e"
  using assms
  by (auto simp: propagate_def guard_error_def split: option.splits prod.splits
      dest: write_row_error_pair[OF assms])

lemma sized_steps_error:
  assumes "guard_error e"
  shows "fst (case allocate s a b of
                (Raised x, s1) \<Rightarrow> (Raised x, s1)
              | (Returned u, s1) \<Rightarrow> propagate s1 node b v) \<noteq> Raised e"
proof -
  obtain r1 s1 where al: "allocate s a b = (r1, s1)" by (metis surj_pair)
  have "r1 \<noteq> Raised e" using al allocate_error[OF assms, of s a b] by auto
  then show ?thesis
    using al propagate_error[OF assms, of s1 node b v]
    by (auto split: outcome.splits)
qed

lemma sized_steps_errorD:
  "guard_error e \<Longrightarrow>
   fst (case allocate s a b of
          (Raised x, s1) \<Rightarrow> (Raised x, s1)
        | (Returned u, s1) \<Rightarrow> propagate s1 node b v) = Raised e \<Longrightarrow> False"
  using sized_steps_error[where e=e and s=s and a=a and b=b and node=node and v=v] by simp

lemma add_sampling_uninitialised:
  "fst (add_sampling s node d) = Raised NotInitialized \<longleftrightarrow> active s = None"
proof (cases "active s")
  case None
  then show ?thesis by (simp add: add_sampling_def Let_def)
next
  case (Some a)
  have g: "guard_error NotInitialized" by (simp add: guard_error_def)
  have "fst (add_sampling s node d) \<noteq> Raised NotInitialized"
    using Some
    by (auto simp: add_sampling_def Let_def dest: sized_steps_errorD[OF g])
  then show ?thesis using Some by simp
qed

lemma add_sampling_sized:
  assumes "active s = Some a" and "length (filter (\<lambda>k. k \<noteq> 1) (shape d)) \<le> 1"
    and "bs = (if filter (\<lambda>k. k \<noteq> 1) (shape d) = [] then 1
               else hd (filter (\<lambda>k. k \<noteq> 1) (shape d)))"
    and "v = data d"
  shows "add_sampling s node d =
           (case allocate s a bs of
              (Raised x, s1) \<Rightarrow> (Raised x, s1)
            | (Returned u, s1) \<Rightarrow> propagate s1 node bs v)"
proof (cases "filter (\<lambda>k. k \<noteq> 1) (shape d) = []")
  case True
  then show ?thesis using assms(1,3,4)
    by (simp add: add_sampling_def Let_def dim_def squeeze_def unsqueeze0_def
        split: prod.splits outcome.splits)
next
  case False
  with assms(2) have "length (filter (\<lambda>k. k \<noteq> 1) (shape d)) = 1"
    by (cases "filter (\<lambda>k. k \<noteq> 1) (shape d)") simp_all
  with False show ?thesis using assms(1,3,4)
    by (simp add: add_sampling_def Let_def dim_def squeeze_def unsqueeze0_def
        split: prod.splits outcome.splits)
qed

lemma add_sampling_invalid:
  assumes "active s \<noteq> None"
  shows "fst (add_sampling s node d) = Raised InvalidShape
           \<longleftrightarrow> 1 < length (filter (\<lambda>k. k \<noteq> 1) (shape d))"
proof (cases "1 < length (filter (\<lambda>k. k \<noteq> 1) (shape d))")
  case True
  then show ?thesis using assms
    by (auto simp: add_sampling_def Let_def dim_def squeeze_def unsqueeze0_def)
next
  case False
  from assms obtain a where a: "active s = Some a" by auto
  have g: "guard_error InvalidShape" by (simp add: guard_error_def)
  from False have le: "length (filter (\<lambda>k. k \<noteq> 1) (shape d)) \<le> 1" by simp
  have "fst (add_sampling s node d) \<noteq> Raised InvalidShape"
    unfolding add_sampling_sized[OF a le refl refl] by (rule sized_steps_error[OF g])
  with False show ?thesis by simp
qed

lemma add_sampling_unset: "active s = None \<Longrightarrow> add_sampling s node d = (Raised NotInitialized, s)"
  by (simp add: add_sampling_def Let_def)

subsection \<open>The active tensor stays set\<close>

lemma update_active: "active (snd (update_global_sampling s u)) = active s"
  by (simp add: update_global_sampling_def Let_def split: option.splits)


lemma new_iteration_set: "active (snd (new_iteration s)) \<noteq> None"
proof (cases "default_out s")
  case None
  then show ?thesis by (simp add: new_iteration_def)
next
  case (Some out)
  show ?thesis
  proof (cases "active s")
    case None
    with Some show ?thesis by (simp add: new_iteration_def)
  next
    case act: (Some a)
    obtain r1 s1 where g: "get_pruned_architecture s out = (r1, s1)" by (metis surj_pair)
    then have s1: "s1 = s" by (rule get_pruned_state)
    show ?thesis
    proof (cases r1)
      case (Raised e)
      with Some act g s1 show ?thesis by (simp add: new_iteration_def)
    next
      case (Returned pruned)
      obtain r2 s2 where u: "update_global_sampling s pruned = (r2, s2)" by (metis surj_pair)
      then have "active s2 = active s" using update_active[of s pruned] by simp
      with Some act g s1 Returned u show ?thesis
        by (cases r2) (simp_all add: new_iteration_def)
    qed
  qed
qed

lemma allocate_set: "active s \<noteq> None \<Longrightarrow> active (snd (allocate s a b)) \<noteq> None"
  by (simp add: allocate_def split: option.splits)

lemma propagate_set: "active s \<noteq> None \<Longrightarrow> active (snd (propagate s node b v)) \<noteq> None"
  by (auto simp: propagate_def split: option.splits prod.splits)

lemma add_sampling_set:
  assumes "active s \<noteq> None"
  shows "active (snd (add_sampling s node d)) \<noteq> None"
proof -
  from assms obtain a where a: "active s = Some a" by auto
  obtain smp where smp: "smp = (if dim (squeeze d) = 0 then unsqueeze0 (squeeze d) else squeeze d)"
    by simp
  obtain r1 s1 where al: "allocate s a (hd (shape smp)) = (r1, s1)" by (metis surj_pair)
  then have "active s1 \<noteq> None" using allocate_set[OF assms, of a "hd (shape smp)"] by simp
  then have "active (snd (propagate s1 node (hd (shape smp)) (data smp))) \<noteq> None"
    by (rule propagate_set)
  then show ?thesis
    using a al \<open>active s1 \<noteq> None\<close> assms
    by (auto simp: add_sampling_def Let_def smp split: outcome.splits)
qed

lemma get_graph_paths_active: "active (snd (get_graph_paths s out_node)) = active s"
proof -
  obtain r1 s1 where g: "get_architectures s out_node = (r1, s1)" by (metis surj_pair)
  then have s1: "s1 = s"
    by (auto simp: get_architectures_def get_sampled_architectures_def
        split: prod.splits outcome.splits dest: get_pruned_state)
  show ?thesis
    using update_active[of s]
    by (auto simp: get_graph_paths_def g s1 split: outcome.splits prod.splits option.splits)
       (metis snd_conv)+
qed

lemma perform_active:
  "active (snd (perform s c)) = None \<longleftrightarrow> active s = None \<and> c \<noteq> Event NewIteration"
proof (cases c)
  case (GraphPaths out_node)
  then show ?thesis
    using get_graph_paths_active[of s out_node]
    by (auto split: prod.splits outcome.splits)
next
  case (Event e)
  show ?thesis
  proof (cases e)
    case (Sampling node d)
    show ?thesis
    proof (cases "active s")
      case None
      then show ?thesis using Event Sampling
        by (simp add: new_event_def add_sampling_unset)
    next
      case (Some a)
      then have "active (snd (add_sampling s node d)) \<noteq> None"
        using add_sampling_set[of s node d] by simp
      then show ?thesis using Event Sampling Some
        by (auto simp: new_event_def split: prod.splits outcome.splits)
    qed
  next
    case NewIteration
    then show ?thesis using Event new_iteration_set[of s]
      by (auto simp: new_event_def split: prod.splits outcome.splits)
  next
    case OtherEvent
    then show ?thesis using Event by (simp add: new_event_def)
  qed
qed

lemma session_active:
  "active (session s cs) = None \<longleftrightarrow> active s = None \<and> Event NewIteration \<notin> set cs"
proof (induction cs arbitrary: s)
  case Nil
  then show ?case by simp
next
  case (Cons c cs)
  show ?case using Cons.IH[of "snd (perform s c)"] perform_active[of s c] by auto
qed

text \<open>
  Claim C5. On a recorder reached from construction by any calls, \<^verbatim>\<open>add_sampling\<close>
  raises the error of line 57 if and only if no \<^verbatim>\<open>new_iteration\<close> event is among these
  calls, and when it raises this error the recorder is left as it was.
\<close>

theorem not_initialized_iff:
  "(fst (add_sampling (session (init g dout) cs) node d) = Raised NotInitialized
      \<longleftrightarrow> Event NewIteration \<notin> set cs) \<and>
   (fst (add_sampling (session (init g dout) cs) node d) = Raised NotInitialized
      \<longrightarrow> snd (add_sampling (session (init g dout) cs) node d) = session (init g dout) cs)"
proof -
  have a: "active (init g dout) = None" by (simp add: init_def)
  have "fst (add_sampling (session (init g dout) cs) node d) = Raised NotInitialized
      \<longleftrightarrow> Event NewIteration \<notin> set cs"
    using a by (simp add: add_sampling_uninitialised session_active)
  moreover have "fst (add_sampling (session (init g dout) cs) node d) = Raised NotInitialized
      \<longrightarrow> snd (add_sampling (session (init g dout) cs) node d) = session (init g dout) cs"
    by (simp add: add_sampling_uninitialised add_sampling_unset)
  ultimately show ?thesis by blast
qed

theorem not_initialized_iff_witness:
  "fst (add_sampling (session (init chain None) [Event OtherEvent, GraphPaths C]) B (flat [1]))
     = Raised NotInitialized \<and>
   snd (add_sampling (session (init chain None) [Event OtherEvent, GraphPaths C]) B (flat [1]))
     = session (init chain None) [Event OtherEvent, GraphPaths C] \<and>
   fst (add_sampling (session (init chain None) [Event NewIteration]) B (flat [1]))
     \<noteq> Raised NotInitialized"
  using not_initialized_iff[of chain None "[Event OtherEvent, GraphPaths C]" B "flat [1]"]
    not_initialized_iff[of chain None "[Event NewIteration]" B "flat [1]"]
  by simp

section \<open>The active tensor as a mask\<close>

lemma write_row_rows:
  assumes "write_row ni preds n b i v a = (r, a1)"
  shows "length a1 = length a \<and> (\<forall>j. j \<noteq> i \<longrightarrow> a1 ! j = a ! j)"
proof -
  obtain r1 b1 where s1: "(if preds = [] then add_own i v a else (Returned (), a)) = (r1, b1)"
    by (metis surj_pair)
  then have k1: "length b1 = length a \<and> (\<forall>j. j \<noteq> i \<longrightarrow> b1 ! j = a ! j)"
    using add_own_rows[of i v a r1 b1] by (auto split: if_splits)
  obtain r2 b2 where s2: "add_predecessors ni i preds b1 = (r2, b2)" by (metis surj_pair)
  from add_predecessors_rows[OF s2] k1
  have k2: "length b2 = length a \<and> (\<forall>j. j \<noteq> i \<longrightarrow> b2 ! j = a ! j)" by simp
  show ?thesis
  proof (cases r1)
    case (Raised e)
    with assms s1 k1 show ?thesis by (simp add: write_row_def)
  next
    case r1: (Returned u1)
    show ?thesis
    proof (cases r2)
      case (Raised e)
      with assms s1 s2 r1 k2 show ?thesis by (simp add: write_row_def)
    next
      case (Returned u2)
      with assms s1 s2 r1 have "prune n b i v b2 = (r, a1)" by (simp add: write_row_def)
      from prune_rows[OF this] k2 show ?thesis by simp
    qed
  qed
qed



lemma is_mask_zeros3: "is_mask (zeros3 n m b)"
  by (simp add: is_mask_def zeros3_def zeros2_def list_all_iff)











section \<open>Recording on sized tensors\<close>

subsection \<open>Shapes\<close>

lemma shape2_nth: "shape2 m n b \<longleftrightarrow> length m = n \<and> (\<forall>j<n. length (m ! j) = b)"
  by (auto simp: shape2_def list_all_length)

lemma shape3_nth: "shape3 a n m b \<longleftrightarrow> length a = n \<and> (\<forall>i<n. shape2 (a ! i) m b)"
  by (auto simp: shape3_def list_all_length)

lemma shape3_update:
  assumes "shape3 a n m b" and "shape2 r m b"
  shows "shape3 (a[i := r]) n m b"
  using assms by (cases "i < length a") (auto simp: shape3_nth nth_list_update)

lemma shape2_update:
  assumes "shape2 m n b" and "length r = b"
  shows "shape2 (m[i := r]) n b"
  using assms by (cases "i < length m") (auto simp: shape2_nth nth_list_update)

lemma shape2_zeros: "shape2 (zeros2 n b) n b"
  by (simp add: shape2_nth zeros2_def)

lemma shape3_zeros: "shape3 (zeros3 n m b) n m b"
  by (simp add: shape3_nth zeros3_def shape2_zeros)

lemma shape2_add:
  assumes "shape2 x n b" and "shape2 y n b"
  shows "shape2 (map2 (map2 (+)) x y) n b"
  using assms by (auto simp: shape2_nth)

subsection \<open>The column maximum\<close>

lemma fold_max:
  assumes "length r = b" and "\<forall>x\<in>set rs. length x = b" and "k < b"
  shows "length (foldl (map2 max) r rs) = b \<and>
         (\<forall>x\<in>set (r # rs). x ! k \<le> foldl (map2 max) r rs ! k) \<and>
         ((\<forall>x\<in>set (r # rs). x ! k = (0::rat)) \<longrightarrow> foldl (map2 max) r rs ! k = 0)"
  using assms
proof (induction rs arbitrary: r)
  case Nil
  then show ?case by simp
next
  case (Cons y rs)
  let ?r = "map2 max r y"
  have l: "length ?r = b" using Cons.prems by simp
  have v: "?r ! k = max (r ! k) (y ! k)" using Cons.prems by simp
  from Cons.IH[OF l _ Cons.prems(3)] Cons.prems(2)
  have ih: "length (foldl (map2 max) ?r rs) = b"
    "\<forall>x\<in>set (?r # rs). x ! k \<le> foldl (map2 max) ?r rs ! k"
    "(\<forall>x\<in>set (?r # rs). x ! k = 0) \<longrightarrow> foldl (map2 max) ?r rs ! k = 0"
    by simp_all
  have "r ! k \<le> foldl (map2 max) ?r rs ! k" and "y ! k \<le> foldl (map2 max) ?r rs ! k"
    using ih(2) v by (simp_all add: max_def split: if_splits)
  moreover have "(\<forall>x\<in>set (r # y # rs). x ! k = 0) \<longrightarrow> foldl (map2 max) ?r rs ! k = 0"
    using ih(3) v by simp
  ultimately show ?case using ih by simp
qed

lemma fold_max_length:
  assumes "length r = b" and "\<forall>x\<in>set rs. length x = b"
  shows "length (foldl (map2 max) r rs) = b"
  using assms by (induction rs arbitrary: r) simp_all

subsection \<open>The steps on a sized tensor\<close>

lemma broadcast_same: "length v = w \<Longrightarrow> broadcast w v = Some v"
  by (simp add: broadcast_def)

lemma add_own_shaped:
  assumes "shape3 a n n b" and "i < n" and "length v = b"
  shows "add_own i v a = (Returned (), a[i := (a ! i)[i := map2 (+) (a ! i ! i) v]])"
  using assms by (simp add: add_own_def Let_def shape3_nth shape2_nth broadcast_same)

lemma add_predecessors_shaped:
  assumes "shape3 a n n b" and "i < n"
    and "\<forall>p\<in>set ps. \<exists>q. ni p = Some q \<and> q < n"
  shows "\<exists>a2. add_predecessors ni i ps a = (Returned (), a2) \<and> shape3 a2 n n b"
  using assms
proof (induction ps arbitrary: a)
  case Nil
  then show ?case by simp
next
  case (Cons p ps)
  from Cons.prems(3) obtain q where q: "ni p = Some q" "q < n" by auto
  have "shape2 (map2 (map2 (+)) (a ! i) (a ! q)) n b"
    using Cons.prems(1,2) q(2) by (intro shape2_add) (simp_all add: shape3_nth)
  from shape3_update[OF Cons.prems(1) this]
  have "shape3 (a[i := map2 (map2 (+)) (a ! i) (a ! q)]) n n b" .
  from Cons.IH[OF this Cons.prems(2)] Cons.prems(3)
  obtain a2 where "add_predecessors ni i ps (a[i := map2 (map2 (+)) (a ! i) (a ! q)])
                     = (Returned (), a2)" "shape3 a2 n n b" by auto
  then show ?case using q Cons.prems(1) by (simp add: shape3_nth)
qed

lemma prune_shaped:
  assumes a: "shape3 a n n b" and i: "i < n" and v: "length v = b" and b: "0 < b"
  shows "\<exists>hi a3. prune n b i v a = (Returned (), a3) \<and> shape3 a3 n n b \<and>
           (\<forall>j. j \<noteq> i \<longrightarrow> a3 ! j = a ! j) \<and> length hi = b \<and>
           (\<forall>k<b. \<forall>j<n. a ! i ! j ! k \<le> hi ! k) \<and>
           (\<forall>k<b. (\<forall>j<n. a ! i ! j ! k = 0) \<longrightarrow> hi ! k = 0) \<and>
           (\<forall>j<n. \<forall>k<b. a3 ! i ! j ! k =
              float_ne0 ((a ! i ! j ! k + (if j = i then v ! k else 0)) * product_ne0 (hi ! k) (v ! k)))"
proof -
  let ?inc = "a ! i"
  from a i have inc: "length ?inc = n" "\<forall>j<n. length (?inc ! j) = b"
    by (simp_all add: shape3_nth shape2_nth)
  then have all: "list_all (\<lambda>r. length r = b) ?inc" by (simp add: list_all_length)
  from inc i obtain r rs where rs: "?inc = r # rs" by (cases ?inc) auto
  have rows: "\<forall>x\<in>set (r # rs). length x = b"
    using all rs by (simp add: list_all_iff)
  let ?hi = "foldl (map2 max) r rs"
  let ?ho = "map2 product_ne0 ?hi v"
  let ?inc1 = "?inc[i := map2 (+) (?inc ! i) v]"
  let ?row = "map (map float_ne0) (map (\<lambda>row. map2 (*) row ?ho) ?inc1)"
  have hl: "length ?hi = b" using rows by (intro fold_max_length) simp_all
  have pr: "prune n b i v a = (Returned (), a[i := ?row])"
    using inc all i rs b by (simp add: prune_def Let_def)
  have ho: "length ?ho = b" using hl v by simp
  have inc1: "length ?inc1 = n" "\<forall>j<n. length (?inc1 ! j) = b"
    using inc i v by (simp_all add: nth_list_update)
  have row2: "shape2 ?row n b" using inc1 ho by (simp add: shape2_nth)
  have s3: "shape3 (a[i := ?row]) n n b" by (rule shape3_update[OF a row2])
  have le: "\<forall>k<b. \<forall>j<n. ?inc ! j ! k \<le> ?hi ! k"
  proof (intro allI impI)
    fix k j assume k: "k < b" and j: "j < n"
    from fold_max[of r b rs k] rows k
    have "\<forall>x\<in>set (r # rs). x ! k \<le> ?hi ! k" by simp
    moreover have "?inc ! j \<in> set (r # rs)" using j inc(1) rs by (metis nth_mem)
    ultimately show "?inc ! j ! k \<le> ?hi ! k" by blast
  qed
  have ze: "\<forall>k<b. (\<forall>j<n. ?inc ! j ! k = 0) \<longrightarrow> ?hi ! k = 0"
  proof (intro allI impI)
    fix k assume k: "k < b" and z: "\<forall>j<n. ?inc ! j ! k = 0"
    have "\<forall>x\<in>set (r # rs). x ! k = 0"
    proof
      fix x assume "x \<in> set (r # rs)"
      then obtain j where "j < length ?inc" "?inc ! j = x" using rs by (metis in_set_conv_nth)
      with z inc(1) show "x ! k = 0" by auto
    qed
    with fold_max[of r b rs k] rows k show "?hi ! k = 0" by simp
  qed
  have en: "\<forall>j<n. \<forall>k<b. (a[i := ?row]) ! i ! j ! k =
              float_ne0 ((?inc ! j ! k + (if j = i then v ! k else 0)) * product_ne0 (?hi ! k) (v ! k))"
  proof (intro allI impI)
    fix j k assume j: "j < n" and k: "k < b"
    have ai: "(a[i := ?row]) ! i = ?row" using a i by (simp add: shape3_nth)
    have "?row ! j ! k = float_ne0 (?inc1 ! j ! k * ?ho ! k)"
      using j k inc1 ho by simp
    moreover have "?ho ! k = product_ne0 (?hi ! k) (v ! k)" using k hl v by simp
    moreover have "?inc1 ! j ! k = ?inc ! j ! k + (if j = i then v ! k else 0)"
      using j k inc i v by (simp add: nth_list_update)
    ultimately show "(a[i := ?row]) ! i ! j ! k =
        float_ne0 ((?inc ! j ! k + (if j = i then v ! k else 0)) * product_ne0 (?hi ! k) (v ! k))"
      using ai by simp
  qed
  have ot: "\<forall>j. j \<noteq> i \<longrightarrow> (a[i := ?row]) ! j = a ! j" by simp
  show ?thesis using pr s3 ot hl le ze en by blast
qed

lemma write_row_shaped:
  assumes a: "shape3 a n n b" and i: "i < n" and v: "length v = b" and b: "0 < b"
    and ps: "\<forall>p\<in>set preds. \<exists>q. ni p = Some q \<and> q < n"
  shows "\<exists>a2 hi a3.
           (if preds = [] then a2 = a[i := (a ! i)[i := map2 (+) (a ! i ! i) v]]
            else add_predecessors ni i preds a = (Returned (), a2)) \<and>
           shape3 a2 n n b \<and>
           write_row ni preds n b i v a = (Returned (), a3) \<and> shape3 a3 n n b \<and>
           (\<forall>j. j \<noteq> i \<longrightarrow> a3 ! j = a ! j) \<and> length hi = b \<and>
           (\<forall>k<b. \<forall>j<n. a2 ! i ! j ! k \<le> hi ! k) \<and>
           (\<forall>k<b. (\<forall>j<n. a2 ! i ! j ! k = 0) \<longrightarrow> hi ! k = 0) \<and>
           (\<forall>j<n. \<forall>k<b. a3 ! i ! j ! k =
              float_ne0 ((a2 ! i ! j ! k + (if j = i then v ! k else 0)) * product_ne0 (hi ! k) (v ! k)))"
proof -
  define a1 where "a1 = (if preds = [] then a[i := (a ! i)[i := map2 (+) (a ! i ! i) v]] else a)"
  have own: "(if preds = [] then add_own i v a else (Returned (), a)) = (Returned (), a1)"
    using add_own_shaped[OF a i v] by (simp add: a1_def)
  have "shape2 ((a ! i)[i := map2 (+) (a ! i ! i) v]) n b"
    using a i v by (intro shape2_update) (simp_all add: shape3_nth shape2_nth)
  then have s1: "shape3 a1 n n b"
    using a by (simp add: a1_def shape3_update)
  from add_predecessors_shaped[OF s1 i ps]
  obtain a2 where a2: "add_predecessors ni i preds a1 = (Returned (), a2)" "shape3 a2 n n b"
    by blast
  have first: "if preds = [] then a2 = a[i := (a ! i)[i := map2 (+) (a ! i ! i) v]]
               else add_predecessors ni i preds a = (Returned (), a2)"
    using a2(1) by (auto simp: a1_def)
  from prune_shaped[OF a2(2) i v b]
  obtain hi a3 where p: "prune n b i v a2 = (Returned (), a3)" "shape3 a3 n n b"
    "\<forall>j. j \<noteq> i \<longrightarrow> a3 ! j = a2 ! j" "length hi = b"
    "\<forall>k<b. \<forall>j<n. a2 ! i ! j ! k \<le> hi ! k"
    "\<forall>k<b. (\<forall>j<n. a2 ! i ! j ! k = 0) \<longrightarrow> hi ! k = 0"
    "\<forall>j<n. \<forall>k<b. a3 ! i ! j ! k =
        float_ne0 ((a2 ! i ! j ! k + (if j = i then v ! k else 0)) * product_ne0 (hi ! k) (v ! k))"
    by blast
  have w: "write_row ni preds n b i v a = (Returned (), a3)"
    using own a2(1) p(1) by (simp add: write_row_def)
  from write_row_rows[OF w] have ot: "\<forall>j. j \<noteq> i \<longrightarrow> a3 ! j = a ! j" by simp
  show ?thesis using first a2(2) w p(2) ot p(4) p(5) p(6) p(7) by blast
qed

text \<open>Whatever their outcome, the steps leave a tensor of the same shape.\<close>

lemma add_predecessors_shape:
  assumes "shape3 a n n b" and "i < n" and "add_predecessors ni i ps a = (r, a2)"
  shows "shape3 a2 n n b"
  using assms
proof (induction ps arbitrary: a)
  case Nil
  then show ?case by simp
next
  case (Cons p ps)
  show ?case
  proof (cases "ni p")
    case None
    with Cons.prems show ?thesis by simp
  next
    case (Some q)
    show ?thesis
    proof (cases "q < length a")
      case True
      then have q: "q < n" using Cons.prems(1) by (simp add: shape3_nth)
      have "shape2 (map2 (map2 (+)) (a ! i) (a ! q)) n b"
        using Cons.prems(1,2) q by (intro shape2_add) (simp_all add: shape3_nth)
      from shape3_update[OF Cons.prems(1) this]
      have sh: "shape3 (a[i := map2 (map2 (+)) (a ! i) (a ! q)]) n n b" .
      from Cons.prems(3) Some True
      have "add_predecessors ni i ps (a[i := map2 (map2 (+)) (a ! i) (a ! q)]) = (r, a2)"
        by simp
      from Cons.IH[OF sh Cons.prems(2) this] show ?thesis .
    next
      case False
      with Cons.prems Some show ?thesis by simp
    qed
  qed
qed

lemma prune_shape:
  assumes "shape3 a n n b" and "i < n" and "length v = b" and "prune n b i v a = (r, a3)"
  shows "shape3 a3 n n b"
proof (cases "0 < b")
  case True
  from prune_shaped[OF assms(1,2,3) True]
  obtain a4 where "prune n b i v a = (Returned (), a4)" "shape3 a4 n n b" by blast
  with assms(4) show ?thesis by simp
next
  case False
  with assms(4) have "a3 = a" by (auto simp: prune_def Let_def split: if_splits)
  with assms(1) show ?thesis by simp
qed

lemma write_row_shape:
  assumes a: "shape3 a n n b" and i: "i < n" and v: "length v = b"
    and w: "write_row ni preds n b i v a = (r, a3)"
  shows "shape3 a3 n n b"
proof -
  define a1 where "a1 = (if preds = [] then a[i := (a ! i)[i := map2 (+) (a ! i ! i) v]] else a)"
  have own: "(if preds = [] then add_own i v a else (Returned (), a)) = (Returned (), a1)"
    using add_own_shaped[OF a i v] by (simp add: a1_def)
  have "shape2 ((a ! i)[i := map2 (+) (a ! i ! i) v]) n b"
    using a i v by (intro shape2_update) (simp_all add: shape3_nth shape2_nth)
  then have s1: "shape3 a1 n n b"
    using a by (simp add: a1_def shape3_update)
  obtain r2 a2 where p: "add_predecessors ni i preds a1 = (r2, a2)" by (metis surj_pair)
  from add_predecessors_shape[OF s1 i p] have s2: "shape3 a2 n n b" .
  show ?thesis
  proof (cases r2)
    case (Raised e)
    with w own p have "a3 = a2" by (simp add: write_row_def)
    with s2 show ?thesis by simp
  next
    case (Returned u)
    with w own p have "prune n b i v a2 = (r, a3)" by (simp add: write_row_def)
    from prune_shape[OF s2 i v this] show ?thesis .
  qed
qed

lemma add_predecessors_clear:
  assumes "shape3 a n n b" and "i < n" and "k < b"
    and "\<forall>p\<in>set ps. \<exists>q. ni p = Some q \<and> q < n \<and> (\<forall>j<n. a ! q ! j ! k = 0)"
    and "\<forall>j<n. a ! i ! j ! k = 0"
    and "add_predecessors ni i ps a = (Returned (), a2)"
  shows "\<forall>j<n. a2 ! i ! j ! k = 0"
  using assms
proof (induction ps arbitrary: a)
  case Nil
  then show ?case by simp
next
  case (Cons p ps)
  from Cons.prems(4) obtain q where q: "ni p = Some q" "q < n" "\<forall>j<n. a ! q ! j ! k = 0"
    by auto
  let ?a = "a[i := map2 (map2 (+)) (a ! i) (a ! q)]"
  have rows: "length a = n" "\<forall>x<n. length (a ! x) = n" "\<forall>x<n. \<forall>j<n. length (a ! x ! j) = b"
    using Cons.prems(1) by (simp_all add: shape3_nth shape2_nth)
  have "shape2 (map2 (map2 (+)) (a ! i) (a ! q)) n b"
    using Cons.prems(1,2) q(2) by (intro shape2_add) (simp_all add: shape3_nth)
  from shape3_update[OF Cons.prems(1) this] have sh: "shape3 ?a n n b" .
  have own: "\<forall>j<n. ?a ! i ! j ! k = 0"
    using rows Cons.prems(2,3,5) q(2,3) by simp
  have pre: "\<forall>p\<in>set ps. \<exists>r. ni p = Some r \<and> r < n \<and> (\<forall>j<n. ?a ! r ! j ! k = 0)"
  proof
    fix p' assume "p' \<in> set ps"
    with Cons.prems(4) obtain r where r: "ni p' = Some r" "r < n" "\<forall>j<n. a ! r ! j ! k = 0"
      by auto
    have "\<forall>j<n. ?a ! r ! j ! k = 0"
    proof (cases "r = i")
      case True
      then show ?thesis using own by simp
    next
      case False
      then show ?thesis using r(3) by simp
    qed
    with r show "\<exists>r. ni p' = Some r \<and> r < n \<and> (\<forall>j<n. ?a ! r ! j ! k = 0)" by blast
  qed
  have run: "add_predecessors ni i ps ?a = (Returned (), a2)"
    using Cons.prems(6) q rows(1) by simp
  from Cons.IH[OF sh Cons.prems(2,3) pre own run] show ?case .
qed

subsection \<open>Sizing\<close>

lemma numel_zeros: "numel3 (zeros3 n m b) = 0 \<Longrightarrow> numel2 (zeros2 n b) = 0 \<or> n = 0 \<or> m = 0"
  by (auto simp: numel3_def numel2_def zeros3_def zeros2_def sum_list_replicate)

lemma allocate_ready:
  assumes "iteration_state s b" and "active s = Some a"
  shows "\<exists>a1 m1 s1. allocate s a b = (Returned (), s1) \<and>
           active s1 = Some a1 \<and> sampling s1 = Some m1 \<and>
           shape3 a1 (n_nodes s) (n_nodes s) b \<and> shape2 m1 (n_nodes s) b \<and> is_mask a1 \<and>
           n_nodes s1 = n_nodes s \<and> node_index s1 = node_index s \<and> graph s1 = graph s \<and>
           ((a1 = zeros3 (n_nodes s) (n_nodes s) b \<and> m1 = zeros2 (n_nodes s) b) \<or>
            (a1 = a \<and> sampling s = Some m1))"
proof -
  from assms obtain m where m: "sampling s = Some m"
    and c: "(a = [] \<and> m = []) \<or>
            (shape3 a (n_nodes s) (n_nodes s) b \<and> shape2 m (n_nodes s) b \<and> is_mask a)"
    by (auto simp: iteration_state_def split: option.splits)
  show ?thesis
  proof (cases "numel3 a = 0 \<and> numel2 m = 0")
    case True
    then have "allocate s a b =
        (Returned (), s\<lparr>active := Some (zeros3 (n_nodes s) (n_nodes s) b),
                         sampling := Some (zeros2 (n_nodes s) b)\<rparr>)"
      using m by (simp add: allocate_def)
    then show ?thesis
      by (simp add: shape3_zeros shape2_zeros is_mask_zeros3)
  next
    case False
    then have al: "allocate s a b = (Returned (), s)"
      using m by (auto simp: allocate_def)
    from False c have "shape3 a (n_nodes s) (n_nodes s) b \<and> shape2 m (n_nodes s) b \<and> is_mask a"
      by (auto simp: numel3_def numel2_def)
    with al m assms(2) show ?thesis by simp
  qed
qed

lemma propagate_shaped:
  assumes "active s = Some a" and "sampling s = Some m"
    and "shape3 a n n b" and "shape2 m n b"
    and "node_index s node = Some i" and "i < n" and "length v = b"
    and "write_row (node_index s) (predecessors (graph s) node) (n_nodes s) b i v a = (r, a1)"
  shows "propagate s node b v = (r, s\<lparr>sampling := Some (m[i := v]), active := Some a1\<rparr>)"
  using assms
  by (simp add: propagate_def shape3_nth shape2_nth broadcast_same)

lemma known_nodeD:
  assumes "known_node s node"
  shows "\<exists>i. node_index s node = Some i \<and> i < n_nodes s"
    and "\<forall>p\<in>set (predecessors (graph s) node). \<exists>q. node_index s p = Some q \<and> q < n_nodes s"
  using assms
  by (auto simp: known_node_def indexed_def list_all_iff split: option.splits)

lemma flat_sized:
  assumes "active s = Some a"
  shows "add_sampling s node (flat d) =
           (case allocate s a (length d) of
              (Raised x, s1) \<Rightarrow> (Raised x, s1)
            | (Returned u, s1) \<Rightarrow> propagate s1 node (length d) d)"
proof (rule add_sampling_sized[OF assms])
  show "length (filter (\<lambda>k. k \<noteq> 1) (shape (flat d))) \<le> 1" by (simp add: flat_def)
  show "length d = (if filter (\<lambda>k. k \<noteq> 1) (shape (flat d)) = [] then 1
         else hd (filter (\<lambda>k. k \<noteq> 1) (shape (flat d))))"
    by (simp add: flat_def)
  show "d = data (flat d)" by (simp add: flat_def)
qed

text \<open>
  A decision with at least one entry, for a known node, in an iteration of its width,
  is recorded.
\<close>

lemma add_sampling_recorded:
  assumes st: "iteration_state s (length d)" and kn: "known_node s node"
    and ix: "node_index s node = Some i" and ne: "d \<noteq> []"
  shows "\<exists>a0 a1 m1 a2 hi a3 s1 s2. active s = Some a0 \<and>
           allocate s a0 (length d) = (Returned (), s1) \<and>
           active s1 = Some a1 \<and> sampling s1 = Some m1 \<and>
           shape3 a1 (n_nodes s) (n_nodes s) (length d) \<and>
           shape2 m1 (n_nodes s) (length d) \<and> is_mask a1 \<and>
           ((a1 = zeros3 (n_nodes s) (n_nodes s) (length d) \<and>
             m1 = zeros2 (n_nodes s) (length d)) \<or>
            (a1 = a0 \<and> sampling s = Some m1)) \<and>
           (if predecessors (graph s) node = []
            then a2 = a1[i := (a1 ! i)[i := map2 (+) (a1 ! i ! i) d]]
            else add_predecessors (node_index s) i (predecessors (graph s) node) a1
                   = (Returned (), a2)) \<and>
           shape3 a2 (n_nodes s) (n_nodes s) (length d) \<and>
           length hi = length d \<and>
           (\<forall>k<length d. \<forall>j<n_nodes s. a2 ! i ! j ! k \<le> hi ! k) \<and>
           (\<forall>k<length d. (\<forall>j<n_nodes s. a2 ! i ! j ! k = 0) \<longrightarrow> hi ! k = 0) \<and>
           (\<forall>j<n_nodes s. \<forall>k<length d. a3 ! i ! j ! k =
              float_ne0 ((a2 ! i ! j ! k + (if j = i then d ! k else 0))
                         * product_ne0 (hi ! k) (d ! k))) \<and>
           shape3 a3 (n_nodes s) (n_nodes s) (length d) \<and>
           (\<forall>j. j \<noteq> i \<longrightarrow> a3 ! j = a1 ! j) \<and>
           add_sampling s node (flat d) = (Returned (), s2) \<and>
           s2 = s1\<lparr>sampling := Some (m1[i := d]), active := Some a3\<rparr> \<and>
           get_pruned_architecture s2 node = (Returned (a3 ! i), s2)"
proof -
  from st obtain a0 where a0: "active s = Some a0"
    by (auto simp: iteration_state_def split: option.splits)
  from allocate_ready[OF st a0]
  obtain a1 m1 s1 where al: "allocate s a0 (length d) = (Returned (), s1)"
    "active s1 = Some a1" "sampling s1 = Some m1"
    "shape3 a1 (n_nodes s) (n_nodes s) (length d)" "shape2 m1 (n_nodes s) (length d)"
    "is_mask a1" "n_nodes s1 = n_nodes s" "node_index s1 = node_index s" "graph s1 = graph s"
    "(a1 = zeros3 (n_nodes s) (n_nodes s) (length d) \<and> m1 = zeros2 (n_nodes s) (length d)) \<or>
     (a1 = a0 \<and> sampling s = Some m1)"
    by blast
  from known_nodeD[OF kn] ix have i: "i < n_nodes s"
    and ps: "\<forall>p\<in>set (predecessors (graph s) node). \<exists>q. node_index s p = Some q \<and> q < n_nodes s"
    by auto
  from ne have wd: "0 < length d" by simp
  from write_row_shaped[OF al(4) i refl wd ps]
  obtain a2 hi a3 where w:
    "if predecessors (graph s) node = []
     then a2 = a1[i := (a1 ! i)[i := map2 (+) (a1 ! i ! i) d]]
     else add_predecessors (node_index s) i (predecessors (graph s) node) a1 = (Returned (), a2)"
    "shape3 a2 (n_nodes s) (n_nodes s) (length d)"
    "write_row (node_index s) (predecessors (graph s) node) (n_nodes s) (length d) i d a1
       = (Returned (), a3)"
    "shape3 a3 (n_nodes s) (n_nodes s) (length d)"
    "\<forall>j. j \<noteq> i \<longrightarrow> a3 ! j = a1 ! j" "length hi = length d"
    "\<forall>k<length d. \<forall>j<n_nodes s. a2 ! i ! j ! k \<le> hi ! k"
    "\<forall>k<length d. (\<forall>j<n_nodes s. a2 ! i ! j ! k = 0) \<longrightarrow> hi ! k = 0"
    "\<forall>j<n_nodes s. \<forall>k<length d. a3 ! i ! j ! k =
        float_ne0 ((a2 ! i ! j ! k + (if j = i then d ! k else 0)) * product_ne0 (hi ! k) (d ! k))"
    by blast
  define s2 where "s2 = s1\<lparr>sampling := Some (m1[i := d]), active := Some a3\<rparr>"
  have w1: "write_row (node_index s1) (predecessors (graph s1) node) (n_nodes s1) (length d) i d a1
       = (Returned (), a3)"
    using w(3) al(7,8,9) by simp
  have ix1: "node_index s1 node = Some i" using ix al(8) by simp
  have pr: "propagate s1 node (length d) d = (Returned (), s2)"
    unfolding s2_def
    by (rule propagate_shaped[OF al(2) al(3) al(4) al(5) ix1 i refl w1])
  have run: "add_sampling s node (flat d) = (Returned (), s2)"
    using flat_sized[OF a0, of node d] al(1) pr by simp
  have "length a3 = n_nodes s" using w(4) by (simp add: shape3_nth)
  then have gp: "get_pruned_architecture s2 node = (Returned (a3 ! i), s2)"
    using ix1 i by (simp add: get_pruned_architecture_def s2_def)
  show ?thesis
    using a0 al(1,2,3,4,5,6,10) w(1,2,6,7,8,9,4,5) run s2_def gp by blast
qed


section \<open>Source nodes\<close>

lemma underflow_power: "underflow = 1 / 2 ^ 150"
  by (simp add: underflow_def)

lemma underflow_pos: "0 < underflow"
  by (simp add: underflow_def)

lemma product_ne0_zero: "product_ne0 0 x = 0" "product_ne0 h 0 = 0"
  using underflow_pos by (simp_all add: product_ne0_def)






section \<open>Downstream pruning\<close>

lemma clear_rows:
  assumes "(a1 = zeros3 n n b \<and> m1 = zeros2 n b) \<or> (a1 = a0 \<and> sampling s = Some m1)"
    and "active s = Some a0"
    and "shape3 a1 n n b" and "column_clear s p k" and "node_index s p = Some q"
    and "q < n" and "k < b"
  shows "\<forall>j<n. a1 ! q ! j ! k = 0"
proof (cases "a1 = a0")
  case True
  with assms(2,4,5) have "q < length a1 \<longrightarrow> list_all (\<lambda>r. r ! k = 0) (a1 ! q)"
    by (simp add: column_clear_def)
  moreover have "length a1 = n" "length (a1 ! q) = n"
    using assms(3,6) by (simp_all add: shape3_nth shape2_nth)
  ultimately show ?thesis using assms(6) by (simp add: list_all_length)
next
  case False
  with assms(1) have "a1 = zeros3 n n b" by blast
  then show ?thesis using assms(6,7) by (simp add: zeros3_def zeros2_def)
qed

lemma downstream_general:
  assumes st: "iteration_state s (length d)" and kn: "known_node s node"
    and ps: "predecessors (graph s) node \<noteq> []" and k: "k < length d"
    and pc: "\<forall>p\<in>set (predecessors (graph s) node). column_clear s p k"
    and oc: "column_clear s node k"
  shows "\<exists>s1 row. add_sampling s node (flat d) = (Returned (), s1) \<and>
           get_pruned_architecture s1 node = (Returned row, s1) \<and>
           length row = n_nodes s \<and> (\<forall>r\<in>set row. r ! k = 0)"
proof -
  from known_nodeD[OF kn] obtain i where ix: "node_index s node = Some i" and i: "i < n_nodes s"
    and pi: "\<forall>p\<in>set (predecessors (graph s) node). \<exists>q. node_index s p = Some q \<and> q < n_nodes s"
    by auto
  from k have ne: "d \<noteq> []" by auto
  from add_sampling_recorded[OF st kn ix ne]
  obtain a0 a1 m1 a2 hi a3 s2 where a0: "active s = Some a0"
    and a1: "shape3 a1 (n_nodes s) (n_nodes s) (length d)"
      "(a1 = zeros3 (n_nodes s) (n_nodes s) (length d) \<and> m1 = zeros2 (n_nodes s) (length d)) \<or>
       (a1 = a0 \<and> sampling s = Some m1)"
    and w: "if predecessors (graph s) node = []
            then a2 = a1[i := (a1 ! i)[i := map2 (+) (a1 ! i ! i) d]]
            else add_predecessors (node_index s) i (predecessors (graph s) node) a1
                   = (Returned (), a2)"
    and hz: "\<forall>k<length d. (\<forall>j<n_nodes s. a2 ! i ! j ! k = 0) \<longrightarrow> hi ! k = 0"
    and en: "\<forall>j<n_nodes s. \<forall>k<length d. a3 ! i ! j ! k =
               float_ne0 ((a2 ! i ! j ! k + (if j = i then d ! k else 0))
                          * product_ne0 (hi ! k) (d ! k))"
    and a3: "shape3 a3 (n_nodes s) (n_nodes s) (length d)"
    and run: "add_sampling s node (flat d) = (Returned (), s2)"
      "get_pruned_architecture s2 node = (Returned (a3 ! i), s2)"
    by (elim exE conjE) (rule that, assumption+)
  from w ps
  have a2: "add_predecessors (node_index s) i (predecessors (graph s) node) a1 = (Returned (), a2)"
    by simp
  have own: "\<forall>j<n_nodes s. a1 ! i ! j ! k = 0"
    by (rule clear_rows[OF a1(2) a0 a1(1) oc ix i k])
  have pre: "\<forall>p\<in>set (predecessors (graph s) node).
               \<exists>q. node_index s p = Some q \<and> q < n_nodes s \<and> (\<forall>j<n_nodes s. a1 ! q ! j ! k = 0)"
  proof
    fix p assume p: "p \<in> set (predecessors (graph s) node)"
    with pi obtain q where q: "node_index s p = Some q" "q < n_nodes s" by auto
    from pc p have "column_clear s p k" by simp
    from clear_rows[OF a1(2) a0 a1(1) this q k] q
    show "\<exists>q. node_index s p = Some q \<and> q < n_nodes s \<and> (\<forall>j<n_nodes s. a1 ! q ! j ! k = 0)"
      by blast
  qed
  from add_predecessors_clear[OF a1(1) i k pre own a2]
  have z2: "\<forall>j<n_nodes s. a2 ! i ! j ! k = 0" .
  with hz k have "hi ! k = 0" by simp
  with en k have z3: "\<forall>j<n_nodes s. a3 ! i ! j ! k = 0"
    by (simp add: float_ne0_def product_ne0_zero)
  have len: "length (a3 ! i) = n_nodes s" using a3 i by (simp add: shape3_nth shape2_nth)
  have "\<forall>r\<in>set (a3 ! i). r ! k = 0"
  proof
    fix r assume "r \<in> set (a3 ! i)"
    then obtain j where "j < length (a3 ! i)" "a3 ! i ! j = r" by (metis in_set_conv_nth)
    with z3 len show "r ! k = 0" by auto
  qed
  with run len show ?thesis by blast
qed

text \<open>
  Claim C3, as amended. In an iteration in progress, for a node with at least one
  predecessor and a batch element \<open>k\<close>: if the active rows of all its predecessors and
  the node's own active row (zero until the node is recorded in the iteration) are
  entirely zero at \<open>k\<close>, then \<^verbatim>\<open>add_sampling\<close> returns and the node's whole active row is
  zero at \<open>k\<close>, whatever the decision at \<open>k\<close>. On the chain with the decisions \<open>[0]\<close>,
  \<open>[1]\<close>, \<open>[1]\<close> recorded in order, the pruned masks of \<open>B\<close> and \<open>C\<close> are all zero.
\<close>

theorem downstream_pruning:
  "(iteration_state s (length d) \<and> known_node s node \<and> predecessors (graph s) node \<noteq> [] \<and>
    k < length d \<and> (\<forall>p\<in>set (predecessors (graph s) node). column_clear s p k) \<and>
    column_clear s node k \<longrightarrow>
      (\<exists>s1 row. add_sampling s node (flat d) = (Returned (), s1) \<and>
         get_pruned_architecture s1 node = (Returned row, s1) \<and>
         length row = n_nodes s \<and> (\<forall>r\<in>set row. r ! k = 0))) \<and>
   fst (get_pruned_architecture (chain_run None [0] [1] [1]) B) = Returned [[0], [0], [0]] \<and>
   fst (get_pruned_architecture (chain_run None [0] [1] [1]) C) = Returned [[0], [0], [0]]"
proof -
  have "fst (get_pruned_architecture (chain_run None [0] [1] [1]) B) = Returned [[0], [0], [0]]"
    by code_simp
  moreover
  have "fst (get_pruned_architecture (chain_run None [0] [1] [1]) C) = Returned [[0], [0], [0]]"
    by code_simp
  ultimately show ?thesis using downstream_general[of s d node k] by blast
qed

theorem downstream_pruning_witness:
  "\<exists>s1 row. add_sampling (session (init chain None)
                 [Event NewIteration, Event (Sampling A (flat [0, 1]))]) B (flat [1, 1])
               = (Returned (), s1) \<and>
     get_pruned_architecture s1 B = (Returned row, s1) \<and>
     length row = 3 \<and> (\<forall>r\<in>set row. r ! 0 = 0)"
proof -
  let ?s = "session (init chain None) [Event NewIteration, Event (Sampling A (flat [0, 1]))]"
  have h: "iteration_state ?s (length [1, 1 :: rat]) \<and> known_node ?s B \<and>
           predecessors (graph ?s) B \<noteq> [] \<and> 0 < length [1, 1 :: rat] \<and>
           (\<forall>p\<in>set (predecessors (graph ?s) B). column_clear ?s p 0) \<and> column_clear ?s B 0"
    by code_simp
  have n: "n_nodes ?s = 3" by code_simp
  from downstream_pruning[of ?s "[1, 1]" B 0] h n show ?thesis by simp
qed

text \<open>
  Claim C3 as stated fails for a node that is recorded again. Line 70 starts from the
  row the node already has: after \<open>A\<close> and \<open>B\<close> were recorded on and \<open>A\<close> was recorded
  again, off, the row of the only predecessor \<open>A\<close> is zero, and recording \<open>B\<close> with \<open>[1]\<close>
  still leaves the mask of \<open>B\<close> on.
\<close>

theorem rerecorded_node_keeps_mask:
  "iteration_state chain_rerecorded 1 \<and> predecessors (graph chain_rerecorded) B = [A] \<and>
   column_clear chain_rerecorded A 0 \<and>
   fst (add_sampling chain_rerecorded B (flat [1])) = Returned () \<and>
   fst (get_pruned_architecture (snd (add_sampling chain_rerecorded B (flat [1]))) B)
     = Returned [[1], [1], [0]]"
  by code_simp

section \<open>The shape of a decision\<close>

lemma prod_list_squeezed: "prod_list (filter (\<lambda>k. k \<noteq> 1) xs) = prod_list (xs :: nat list)"
  by (induction xs) simp_all

lemma squeezed_width:
  assumes "wf_tensor t" and "length (filter (\<lambda>k. k \<noteq> 1) (shape t)) \<le> 1"
  shows "length (data t) = (if filter (\<lambda>k. k \<noteq> 1) (shape t) = [] then 1
                            else hd (filter (\<lambda>k. k \<noteq> 1) (shape t)))"
proof -
  have "length (data t) = prod_list (filter (\<lambda>k. k \<noteq> 1) (shape t))"
    using assms(1) prod_list_squeezed[of "shape t"] by (simp add: wf_tensor_def)
  then show ?thesis using assms(2)
    by (cases "filter (\<lambda>k. k \<noteq> 1) (shape t)") simp_all
qed

text \<open>
  Lines 69 to 90 on sized tensors: whatever the node and the outcome, the tensors keep
  their shape and the rows of the other nodes stay as they were.
\<close>

lemma propagate_sized_state:
  assumes a: "active s = Some a" and m: "sampling s = Some m"
    and sa: "shape3 a (n_nodes s) (n_nodes s) b" and sm: "shape2 m (n_nodes s) b"
    and v: "length v = b"
  shows "\<exists>a1 m1. active (snd (propagate s node b v)) = Some a1 \<and>
           sampling (snd (propagate s node b v)) = Some m1 \<and>
           shape3 a1 (n_nodes s) (n_nodes s) b \<and> shape2 m1 (n_nodes s) b \<and>
           (\<forall>j<n_nodes s. node_index s node \<noteq> Some j \<longrightarrow> a1 ! j = a ! j \<and> m1 ! j = m ! j)"
proof (cases "node_index s node")
  case None
  then have "propagate s node b v = (Raised KeyError, s)" by (simp add: propagate_def)
  then show ?thesis using a m sa sm by simp
next
  case (Some i)
  have la: "length a = n_nodes s" using sa by (simp add: shape3_nth)
  show ?thesis
  proof (cases "i < n_nodes s")
    case False
    then have "propagate s node b v = (Raised IndexError, s)"
      using Some a la by (simp add: propagate_def)
    then show ?thesis using a m sa sm by simp
  next
    case True
    obtain r a3 where
      w: "write_row (node_index s) (predecessors (graph s) node) (n_nodes s) b i v a = (r, a3)"
      by (metis surj_pair)
    from propagate_shaped[OF a m sa sm Some True v w]
    have pr: "propagate s node b v = (r, s\<lparr>sampling := Some (m[i := v]), active := Some a3\<rparr>)" .
    from write_row_shape[OF sa True v w] have s3: "shape3 a3 (n_nodes s) (n_nodes s) b" .
    from write_row_rows[OF w] have ot: "\<forall>j. j \<noteq> i \<longrightarrow> a3 ! j = a ! j" by simp
    have s2: "shape2 (m[i := v]) (n_nodes s) b" using sm v by (intro shape2_update) simp_all
    have "\<forall>j<n_nodes s. node_index s node \<noteq> Some j \<longrightarrow> a3 ! j = a ! j \<and> (m[i := v]) ! j = m ! j"
      using ot Some by simp
    with pr s3 s2 show ?thesis by simp
  qed
qed

lemma first_decision:
  assumes fr: "active s = Some []" "sampling s = Some []"
    and wf: "wf_tensor t" and le: "length (filter (\<lambda>k. k \<noteq> 1) (shape t)) \<le> 1"
  shows "allocate s [] (length (data t))
           = (Returned (), s\<lparr>active := Some (zeros3 (n_nodes s) (n_nodes s) (length (data t))),
                             sampling := Some (zeros2 (n_nodes s) (length (data t)))\<rparr>) \<and>
         add_sampling s node t
           = propagate (s\<lparr>active := Some (zeros3 (n_nodes s) (n_nodes s) (length (data t))),
                          sampling := Some (zeros2 (n_nodes s) (length (data t)))\<rparr>)
               node (length (data t)) (data t) \<and>
         (\<exists>a1 m1. active (snd (add_sampling s node t)) = Some a1 \<and>
            sampling (snd (add_sampling s node t)) = Some m1 \<and>
            shape3 a1 (n_nodes s) (n_nodes s) (length (data t)) \<and>
            shape2 m1 (n_nodes s) (length (data t)) \<and>
            (\<forall>j<n_nodes s. node_index s node \<noteq> Some j \<longrightarrow>
               a1 ! j = zeros2 (n_nodes s) (length (data t)) \<and>
               m1 ! j = replicate (length (data t)) 0))"
proof -
  let ?d = "data t" and ?n = "n_nodes s"
  let ?s0 = "s\<lparr>active := Some (zeros3 ?n ?n (length ?d)),
                sampling := Some (zeros2 ?n (length ?d))\<rparr>"
  have al: "allocate s [] (length ?d) = (Returned (), ?s0)"
    using fr by (simp add: allocate_def numel3_def numel2_def)
  have "add_sampling s node t =
          (case allocate s [] (length ?d) of
             (Raised x, s1) \<Rightarrow> (Raised x, s1)
           | (Returned u, s1) \<Rightarrow> propagate s1 node (length ?d) ?d)"
    by (rule add_sampling_sized[OF fr(1) le squeezed_width[OF wf le] refl])
  with al have same: "add_sampling s node t = propagate ?s0 node (length ?d) ?d" by simp
  have "\<exists>a1 m1. active (snd (propagate ?s0 node (length ?d) ?d)) = Some a1 \<and>
           sampling (snd (propagate ?s0 node (length ?d) ?d)) = Some m1 \<and>
           shape3 a1 (n_nodes ?s0) (n_nodes ?s0) (length ?d) \<and>
           shape2 m1 (n_nodes ?s0) (length ?d) \<and>
           (\<forall>j<n_nodes ?s0. node_index ?s0 node \<noteq> Some j \<longrightarrow>
              a1 ! j = zeros3 ?n ?n (length ?d) ! j \<and> m1 ! j = zeros2 ?n (length ?d) ! j)"
    by (rule propagate_sized_state) (simp_all add: shape3_zeros shape2_zeros)
  then obtain a1 m1 where r: "active (snd (propagate ?s0 node (length ?d) ?d)) = Some a1"
    "sampling (snd (propagate ?s0 node (length ?d) ?d)) = Some m1"
    "shape3 a1 ?n ?n (length ?d)" "shape2 m1 ?n (length ?d)"
    "\<forall>j<?n. node_index s node \<noteq> Some j \<longrightarrow>
       a1 ! j = zeros3 ?n ?n (length ?d) ! j \<and> m1 ! j = zeros2 ?n (length ?d) ! j"
    by auto
  from r(5) have "\<forall>j<?n. node_index s node \<noteq> Some j \<longrightarrow>
       a1 ! j = zeros2 ?n (length ?d) \<and> m1 ! j = replicate (length ?d) 0"
    by (simp add: zeros3_def zeros2_def)
  with r(1-4) same al show ?thesis by auto
qed

text \<open>
  Claim C6, as amended. Before \<^verbatim>\<open>new_iteration\<close> has run, \<^verbatim>\<open>add_sampling\<close> raises the
  error of line 57 whatever the shape. Once it has run (the active tensor is set),
  \<^verbatim>\<open>add_sampling\<close> raises the error of line 61 exactly when the squeezed decision keeps
  more than one dimension, that is more than one dimension of a size other than 1; a
  scalar is handled as the vector of its one entry; and a decision with at most one such
  dimension and \<open>b\<close> entries, arriving when both tensors are still unsized, sizes them
  \<open>n \<times> n \<times> b\<close> and \<open>n \<times> b\<close> zero-filled before lines 69 to 90 run on them, after which
  they still have these shapes and every row of another node is still zero.
\<close>

theorem decision_shape:
  "(active s = None \<longrightarrow> add_sampling s node t = (Raised NotInitialized, s)) \<and>
   (active s \<noteq> None \<longrightarrow>
      (fst (add_sampling s node t) = Raised InvalidShape
         \<longleftrightarrow> 1 < length (filter (\<lambda>k. k \<noteq> 1) (shape t)))) \<and>
   add_sampling s node (Tensor [] [x]) = add_sampling s node (flat [x]) \<and>
   (active s = Some [] \<and> sampling s = Some [] \<and> wf_tensor t \<and>
    length (filter (\<lambda>k. k \<noteq> 1) (shape t)) \<le> 1 \<longrightarrow>
      allocate s [] (length (data t))
        = (Returned (), s\<lparr>active := Some (zeros3 (n_nodes s) (n_nodes s) (length (data t))),
                          sampling := Some (zeros2 (n_nodes s) (length (data t)))\<rparr>) \<and>
      add_sampling s node t
        = propagate (s\<lparr>active := Some (zeros3 (n_nodes s) (n_nodes s) (length (data t))),
                       sampling := Some (zeros2 (n_nodes s) (length (data t)))\<rparr>)
            node (length (data t)) (data t) \<and>
      (\<exists>a1 m1. active (snd (add_sampling s node t)) = Some a1 \<and>
         sampling (snd (add_sampling s node t)) = Some m1 \<and>
         shape3 a1 (n_nodes s) (n_nodes s) (length (data t)) \<and>
         shape2 m1 (n_nodes s) (length (data t)) \<and>
         (\<forall>j<n_nodes s. node_index s node \<noteq> Some j \<longrightarrow>
            a1 ! j = zeros2 (n_nodes s) (length (data t)) \<and>
            m1 ! j = replicate (length (data t)) 0)))"
proof -
  have "add_sampling s node (Tensor [] [x]) = add_sampling s node (flat [x])"
    by (simp add: add_sampling_def Let_def squeeze_def dim_def unsqueeze0_def flat_def)
  then show ?thesis
    using add_sampling_unset[of s node t] add_sampling_invalid[of s node t]
      first_decision[of s t node]
    by blast
qed

theorem decision_shape_witness:
  "add_sampling (init chain None) B (Tensor [1, 2, 1] [1, 0])
     = (Raised NotInitialized, init chain None) \<and>
   active chain_started \<noteq> None \<and>
   fst (add_sampling chain_started B (Tensor [1, 2, 1] [1, 0])) = Returned () \<and>
   fst (add_sampling chain_started B (Tensor [2, 2] [1, 0, 0, 1])) = Raised InvalidShape \<and>
   add_sampling chain_started B (Tensor [] [1]) = add_sampling chain_started B (flat [1]) \<and>
   (\<exists>a1 m1. active (snd (add_sampling chain_started B (Tensor [1, 2, 1] [1, 0]))) = Some a1 \<and>
      sampling (snd (add_sampling chain_started B (Tensor [1, 2, 1] [1, 0]))) = Some m1 \<and>
      shape3 a1 3 3 2 \<and> shape2 m1 3 2 \<and>
      a1 ! 0 = zeros2 3 2 \<and> m1 ! 0 = [0, 0] \<and> a1 ! 2 = zeros2 3 2 \<and> m1 ! 2 = [0, 0])"
proof -
  have h0: "active (init chain None) = None" by (simp add: init_def)
  have h1: "active chain_started \<noteq> None" by code_simp
  have h2: "active chain_started = Some [] \<and> sampling chain_started = Some [] \<and>
            wf_tensor (Tensor [1, 2, 1] [1, 0]) \<and>
            length (filter (\<lambda>k. k \<noteq> 1) (shape (Tensor [1, 2, 1] [1, 0]))) \<le> 1"
    by code_simp
  have h3: "node_index chain_started B = Some 1" by code_simp
  have h4: "n_nodes chain_started = 3" by code_simp
  have h5: "fst (add_sampling chain_started B (Tensor [1, 2, 1] [1, 0])) = Returned ()"
    by code_simp
  have h6: "1 < length (filter (\<lambda>k. k \<noteq> 1) (shape (Tensor [2, 2] [1, 0, 0, 1])))"
    by simp
  from decision_shape[of "init chain None" B "Tensor [1, 2, 1] [1, 0]" 1] h0
  have c1: "add_sampling (init chain None) B (Tensor [1, 2, 1] [1, 0])
              = (Raised NotInitialized, init chain None)"
    by blast
  from decision_shape[of chain_started B "Tensor [2, 2] [1, 0, 0, 1]" 1] h1 h6
  have c2: "fst (add_sampling chain_started B (Tensor [2, 2] [1, 0, 0, 1])) = Raised InvalidShape"
    by blast
  from decision_shape[of chain_started B "Tensor [1, 2, 1] [1, 0]" 1] h2
  obtain a1 m1 where
    c3: "add_sampling chain_started B (Tensor [] [1]) = add_sampling chain_started B (flat [1])"
    and c4: "active (snd (add_sampling chain_started B (Tensor [1, 2, 1] [1, 0]))) = Some a1"
      "sampling (snd (add_sampling chain_started B (Tensor [1, 2, 1] [1, 0]))) = Some m1"
      "shape3 a1 (n_nodes chain_started) (n_nodes chain_started)
         (length (data (Tensor [1, 2, 1] [1, 0])))"
      "shape2 m1 (n_nodes chain_started) (length (data (Tensor [1, 2, 1] [1, 0])))"
      "\<forall>j<n_nodes chain_started. node_index chain_started B \<noteq> Some j \<longrightarrow>
         a1 ! j = zeros2 (n_nodes chain_started) (length (data (Tensor [1, 2, 1] [1, 0]))) \<and>
         m1 ! j = replicate (length (data (Tensor [1, 2, 1] [1, 0]))) 0"
    by blast
  have l: "length (data (Tensor [1, 2, 1] [1, 0])) = 2" by simp
  from c4(5) h3 h4 have "a1 ! 0 = zeros2 3 2 \<and> m1 ! 0 = [0, 0]"
    by (simp add: l numeral_2_eq_2)
  moreover from c4(5) h3 h4 have "a1 ! 2 = zeros2 3 2 \<and> m1 ! 2 = [0, 0]"
    by (simp add: l numeral_2_eq_2)
  moreover from c4(3,4) h4 have "shape3 a1 3 3 2" "shape2 m1 3 2"
    by (simp_all add: l numeral_2_eq_2)
  ultimately show ?thesis using c1 h1 h5 c2 c3 c4(1,2) by blast
qed

text \<open>
  Claim C6 as stated fails before the first iteration: the guard of line 56 comes before
  the shape check of line 60, so a decision of shape \<open>2 \<times> 2\<close> on a new recorder raises
  the error of line 57.
\<close>

theorem uninitialised_precedes_shape:
  "1 < length (filter (\<lambda>k. k \<noteq> 1) (shape (Tensor [2, 2] [1, 1, 1, 1]))) \<and>
   wf_tensor (Tensor [2, 2] [1, 1, 1, 1]) \<and>
   fst (add_sampling (init chain None) A (Tensor [2, 2] [1, 1, 1, 1])) = Raised NotInitialized \<and>
   fst (add_sampling (init chain None) A (Tensor [2, 2] [1, 1, 1, 1])) \<noteq> Raised InvalidShape"
  by code_simp

end
